theory Spec2Isabelle
  imports Main "HOL-Library.Word"
begin

section \<open>Sequential file readers of file/sequence\_file\_reader.cc\<close>

text \<open>
  The development embeds the two readers of \<^verbatim>\<open>file/sequence_file_reader.cc\<close>:
  \<^verbatim>\<open>SequentialFileReader\<close> (the direct-I/O read adapter) and
  \<^verbatim>\<open>ReadaheadSequentialFile\<close> (the readahead cache decorator), together with the
  factory \<^verbatim>\<open>NewReadaheadSequentialFile\<close>.

  \<^item> \<^verbatim>\<open>size_t\<close> and \<^verbatim>\<open>uint64_t\<close> are 64-bit words: \<open>+\<close> and \<open>-\<close> wrap around as
    the unsigned C++ arithmetic does.
  \<^item> A \<^verbatim>\<open>Slice\<close> is modelled by the bytes it denotes. A method with the out-parameter
    \<^verbatim>\<open>Slice* result\<close> takes the value \<^verbatim>\<open>*result\<close> holds at the call and returns the
    value it holds at the return; a path that never assigns \<^verbatim>\<open>*result\<close> returns the
    incoming value. The wrapped file is taken to deliver its bytes in the caller's
    \<^verbatim>\<open>scratch\<close> area, so \<^verbatim>\<open>Slice(scratch, cached_len + result->size())\<close> denotes the
    cached bytes followed by the bytes of the wrapped read.
  \<^item> A mutable object is a record that every method takes and returns.
  \<^item> The mutex of the decorator and the atomicity of the adapter's cursor are not
    modelled: every method is one sequential step. The I/O statistics counter and the
    assertions of debug builds are left out; the code is the one compiled without
    \<^verbatim>\<open>ROCKSDB_LITE\<close>.
\<close>

type_synonym size_t = "64 word"
type_synonym uint64_t = "64 word"
type_synonym byte = "8 word"
type_synonym Slice = "byte list"

datatype Status = OK | IOError string

definition ok :: "Status \<Rightarrow> bool" where
  "ok s = (s = OK)"

subsection \<open>Helpers of util/aligned\_buffer.h\<close>

text \<open>
  Modelled from the spec: \<^verbatim>\<open>TruncateToPageBoundary\<close> of util/aligned\_buffer.h, the
  \<open>floor(offset, alignment)\<close> of the spec: the largest multiple of the page size that is
  not above \<open>s\<close>.
\<close>

definition TruncateToPageBoundary :: "size_t \<Rightarrow> size_t \<Rightarrow> size_t" where
  "TruncateToPageBoundary page_size s = s - s mod page_size"

text \<open>
  Modelled from the spec: \<^verbatim>\<open>Roundup\<close> of util/aligned\_buffer.h, the
  \<open>ceil(x, alignment)\<close> of the spec: \<open>x\<close> rounded up to a multiple of \<open>y\<close>, as a
  64-bit value.
\<close>

definition Roundup :: "size_t \<Rightarrow> size_t \<Rightarrow> size_t" where
  "Roundup x y = word_of_nat (((unat x + unat y - 1) div unat y) * unat y)"

text \<open>
  Modelled from the spec: the class \<^verbatim>\<open>AlignedBuffer\<close> of util/aligned\_buffer.h, the
  Aligned Scratch Buffer of the spec: an alignment, a capacity (a multiple of the
  alignment), the number of valid bytes and the storage. \<open>bufstart\<close> holds the bytes
  written to the storage so far; the operations are allocate-to-capacity, set-valid-size,
  copy-out-range and clear.
\<close>

record AlignedBuffer =
  buf_alignment :: size_t
  capacity :: size_t
  cursize :: size_t
  bufstart :: "byte list"

definition new_AlignedBuffer :: AlignedBuffer where
  "new_AlignedBuffer = \<lparr>buf_alignment = 0, capacity = 0, cursize = 0, bufstart = []\<rparr>"

definition Alignment :: "size_t \<Rightarrow> AlignedBuffer \<Rightarrow> AlignedBuffer" where
  "Alignment a b = b\<lparr>buf_alignment := a\<rparr>"

definition AllocateNewBuffer :: "size_t \<Rightarrow> AlignedBuffer \<Rightarrow> AlignedBuffer" where
  "AllocateNewBuffer requested_capacity b =
     b\<lparr>capacity := Roundup requested_capacity (buf_alignment b), cursize := 0, bufstart := []\<rparr>"

definition Capacity :: "AlignedBuffer \<Rightarrow> size_t" where
  "Capacity b = capacity b"

definition CurrentSize :: "AlignedBuffer \<Rightarrow> size_t" where
  "CurrentSize b = cursize b"

definition Size :: "size_t \<Rightarrow> AlignedBuffer \<Rightarrow> AlignedBuffer" where
  "Size n b = b\<lparr>cursize := n\<rparr>"

definition Clear :: "AlignedBuffer \<Rightarrow> AlignedBuffer" where
  "Clear b = b\<lparr>cursize := 0\<rparr>"

text \<open>A read of the wrapped file into \<^verbatim>\<open>BufferStart()\<close> overwrites the front of the storage.\<close>

definition store :: "byte list \<Rightarrow> AlignedBuffer \<Rightarrow> AlignedBuffer" where
  "store bs b = b\<lparr>bufstart := bs @ drop (length bs) (bufstart b)\<rparr>"

text \<open>\<^verbatim>\<open>AlignedBuffer::Read(dest, offset, read_size)\<close>: the bytes copied to \<open>dest\<close>.\<close>

definition buf_Read :: "size_t \<Rightarrow> size_t \<Rightarrow> AlignedBuffer \<Rightarrow> byte list" where
  "buf_Read offs read_size b =
     (let to_read = (if offs < cursize b then min (cursize b - offs) read_size else 0)
      in take (unat to_read) (drop (unat offs) (bufstart b)))"

subsection \<open>The wrapped file\<close>

text \<open>
  Modelled from the spec: the interface \<^verbatim>\<open>SequentialFile\<close> (declared in
  include/rocksdb/env.h), the raw sequential source of the spec: \<open>read(n)\<close>, \<open>skip(n)\<close>,
  \<open>positioned_read(offset, n)\<close>, \<open>invalidate_cache(offset, length)\<close>,
  \<open>required_buffer_alignment()\<close> and \<open>uses_direct_io()\<close>. The methods are the fields of
  a record over the state \<open>'f\<close> of the file, so that every result below holds for any
  implementation of the interface.
\<close>

record 'f SequentialFile =
  Read :: "size_t \<Rightarrow> Slice \<Rightarrow> 'f \<Rightarrow> Status \<times> Slice \<times> 'f"
  Skip :: "uint64_t \<Rightarrow> 'f \<Rightarrow> Status \<times> 'f"
  PositionedRead :: "uint64_t \<Rightarrow> size_t \<Rightarrow> Slice \<Rightarrow> 'f \<Rightarrow> Status \<times> Slice \<times> 'f"
  InvalidateCache :: "size_t \<Rightarrow> size_t \<Rightarrow> 'f \<Rightarrow> Status \<times> 'f"
  GetRequiredBufferAlignment :: "'f \<Rightarrow> size_t"
  use_direct_io :: "'f \<Rightarrow> bool"

subsection \<open>SequentialFileReader\<close>

record 'f SequentialFileReader =
  reader_file :: 'f
  offset :: size_t

text \<open>\<^verbatim>\<open>SequentialFileReader::Read\<close>, lines 33 to 60.\<close>

definition SequentialFileReader_Read ::
  "'f SequentialFile \<Rightarrow> size_t \<Rightarrow> Slice \<Rightarrow> 'f SequentialFileReader
     \<Rightarrow> Status \<times> Slice \<times> 'f SequentialFileReader" where
  "SequentialFileReader_Read ops n result r =
     (if use_direct_io ops (reader_file r) then
        (let offs = offset r;
             r1 = r\<lparr>offset := offset r + n\<rparr>;
             alignment = GetRequiredBufferAlignment ops (reader_file r1);
             aligned_offset = TruncateToPageBoundary alignment offs;
             offset_advance = offs - aligned_offset;
             sz = Roundup (offs + n) alignment - aligned_offset;
             buf = AllocateNewBuffer sz (Alignment alignment new_AlignedBuffer);
             (s, tmp, f) = PositionedRead ops aligned_offset sz [] (reader_file r1);
             tmp_size = (word_of_nat (length tmp) :: size_t);
             res = (if ok s \<and> offset_advance < tmp_size
                    then buf_Read offset_advance (min (tmp_size - offset_advance) n)
                           (Size tmp_size (store tmp buf))
                    else [])
         in (s, res, r1\<lparr>reader_file := f\<rparr>))
      else
        (let (s, res, f) = Read ops n result (reader_file r)
         in (s, res, r\<lparr>reader_file := f\<rparr>)))"

text \<open>\<^verbatim>\<open>SequentialFileReader::Skip\<close>, lines 62 to 70.\<close>

definition SequentialFileReader_Skip ::
  "'f SequentialFile \<Rightarrow> uint64_t \<Rightarrow> 'f SequentialFileReader \<Rightarrow> Status \<times> 'f SequentialFileReader" where
  "SequentialFileReader_Skip ops n r =
     (if use_direct_io ops (reader_file r) then (OK, r\<lparr>offset := offset r + n\<rparr>)
      else (let (s, f) = Skip ops n (reader_file r) in (s, r\<lparr>reader_file := f\<rparr>)))"

subsection \<open>ReadaheadSequentialFile\<close>

record 'f ReadaheadSequentialFile =
  ra_file :: 'f
  alignment :: size_t
  readahead_size :: size_t
  buffer :: AlignedBuffer
  buffer_offset :: uint64_t
  read_offset :: uint64_t

text \<open>The constructor, lines 79 to 89.\<close>

definition new_ReadaheadSequentialFile ::
  "'f SequentialFile \<Rightarrow> 'f \<Rightarrow> size_t \<Rightarrow> 'f ReadaheadSequentialFile" where
  "new_ReadaheadSequentialFile ops f rs =
     (let a = GetRequiredBufferAlignment ops f;
          ra = Roundup rs a
      in \<lparr>ra_file = f, alignment = a, readahead_size = ra,
          buffer = AllocateNewBuffer ra (Alignment a new_AlignedBuffer),
          buffer_offset = 0, read_offset = 0\<rparr>)"

text \<open>
  \<^verbatim>\<open>TryReadFromCache\<close>, lines 178 to 190: the flag returned, \<^verbatim>\<open>*cached_len\<close>, the bytes
  copied to \<^verbatim>\<open>scratch\<close> and the new state.
\<close>

definition TryReadFromCache ::
  "size_t \<Rightarrow> 'f ReadaheadSequentialFile \<Rightarrow> bool \<times> size_t \<times> byte list \<times> 'f ReadaheadSequentialFile" where
  "TryReadFromCache n st =
     (if read_offset st < buffer_offset st
         \<or> read_offset st \<ge> buffer_offset st + CurrentSize (buffer st)
      then (False, 0, [], st)
      else
        (let offset_in_buffer = read_offset st - buffer_offset st;
             cached_len = min (CurrentSize (buffer st) - offset_in_buffer) n
         in (True, cached_len,
             take (unat cached_len) (drop (unat offset_in_buffer) (bufstart (buffer st))),
             st\<lparr>read_offset := read_offset st + cached_len\<rparr>)))"

text \<open>\<^verbatim>\<open>ReadIntoBuffer\<close>, lines 195 to 208.\<close>

definition ReadIntoBuffer ::
  "'f SequentialFile \<Rightarrow> size_t \<Rightarrow> 'f ReadaheadSequentialFile \<Rightarrow> Status \<times> 'f ReadaheadSequentialFile" where
  "ReadIntoBuffer ops n st =
     (let n1 = (if n > Capacity (buffer st) then Capacity (buffer st) else n);
          (s, res, f) = Read ops n1 [] (ra_file st);
          st1 = st\<lparr>ra_file := f\<rparr>
      in if ok s
         then (s, st1\<lparr>buffer_offset := read_offset st1,
                      buffer := Size (word_of_nat (length res)) (store res (buffer st1))\<rparr>)
         else (s, st1))"

text \<open>\<^verbatim>\<open>ReadaheadSequentialFile::Read\<close>, lines 95 to 131.\<close>

definition ReadaheadSequentialFile_Read ::
  "'f SequentialFile \<Rightarrow> size_t \<Rightarrow> Slice \<Rightarrow> 'f ReadaheadSequentialFile
     \<Rightarrow> Status \<times> Slice \<times> 'f ReadaheadSequentialFile" where
  "ReadaheadSequentialFile_Read ops n result st =
     (let (hit, cached_len, cached, st1) = TryReadFromCache n st
      in if hit \<and> (cached_len = n \<or> CurrentSize (buffer st1) < readahead_size st1)
         then (OK, cached, st1)
         else
           (let n1 = n - cached_len
            in if n1 + alignment st1 \<ge> readahead_size st1
               then
                 (let (s, res, f) = Read ops n1 result (ra_file st1);
                      st2 = st1\<lparr>ra_file := f\<rparr>
                  in if ok s
                     then (s, cached @ res,
                           st2\<lparr>read_offset := read_offset st2 + word_of_nat (length res),
                               buffer := Clear (buffer st2)\<rparr>)
                     else (s, res, st2\<lparr>buffer := Clear (buffer st2)\<rparr>))
               else
                 (let (s, st2) = ReadIntoBuffer ops (readahead_size st1) st1
                  in if ok s
                     then (let (hit2, remaining_len, rest, st3) = TryReadFromCache n1 st2
                           in (s, cached @ rest, st3))
                     else (s, result, st2))))"

text \<open>\<^verbatim>\<open>ReadaheadSequentialFile::Skip\<close>, lines 133 to 158.\<close>

definition ReadaheadSequentialFile_Skip ::
  "'f SequentialFile \<Rightarrow> uint64_t \<Rightarrow> 'f ReadaheadSequentialFile \<Rightarrow> Status \<times> 'f ReadaheadSequentialFile" where
  "ReadaheadSequentialFile_Skip ops n st =
     (let (n1, st1) =
            (if CurrentSize (buffer st) > 0 then
               (if read_offset st + n \<ge> buffer_offset st + CurrentSize (buffer st)
                then (n - (buffer_offset st + CurrentSize (buffer st) - read_offset st),
                      st\<lparr>read_offset := buffer_offset st + CurrentSize (buffer st)\<rparr>)
                else (0, st\<lparr>read_offset := read_offset st + n\<rparr>))
             else (n, st))
      in if n1 > 0
         then
           (let (s, f) = Skip ops n1 (ra_file st1);
                st2 = (if ok s then st1\<lparr>read_offset := read_offset st1 + n1\<rparr> else st1)
            in (s, st2\<lparr>ra_file := f, buffer := Clear (buffer st2)\<rparr>))
         else (OK, st1))"

text \<open>\<^verbatim>\<open>PositionedRead\<close> and \<^verbatim>\<open>InvalidateCache\<close> of the decorator, lines 160 to 169.\<close>

definition ReadaheadSequentialFile_PositionedRead ::
  "'f SequentialFile \<Rightarrow> uint64_t \<Rightarrow> size_t \<Rightarrow> Slice \<Rightarrow> 'f ReadaheadSequentialFile
     \<Rightarrow> Status \<times> Slice \<times> 'f ReadaheadSequentialFile" where
  "ReadaheadSequentialFile_PositionedRead ops offs n result st =
     (let (s, res, f) = PositionedRead ops offs n result (ra_file st) in (s, res, st\<lparr>ra_file := f\<rparr>))"

definition ReadaheadSequentialFile_InvalidateCache ::
  "'f SequentialFile \<Rightarrow> size_t \<Rightarrow> size_t \<Rightarrow> 'f ReadaheadSequentialFile
     \<Rightarrow> Status \<times> 'f ReadaheadSequentialFile" where
  "ReadaheadSequentialFile_InvalidateCache ops offs len st =
     (let st1 = st\<lparr>buffer := Clear (buffer st)\<rparr>;
          (s, f) = InvalidateCache ops offs len (ra_file st1)
      in (s, st1\<lparr>ra_file := f\<rparr>))"

text \<open>\<^verbatim>\<open>use_direct_io\<close> of the decorator, line 171.\<close>

definition ReadaheadSequentialFile_use_direct_io ::
  "'f SequentialFile \<Rightarrow> 'f ReadaheadSequentialFile \<Rightarrow> bool" where
  "ReadaheadSequentialFile_use_direct_io ops st = use_direct_io ops (ra_file st)"

subsection \<open>The factory\<close>

text \<open>
  \<^verbatim>\<open>SequentialFileReader::NewReadaheadSequentialFile\<close>, lines 229 to 240: the pointer
  returned is the file passed in or a new decorator that owns it.
\<close>

datatype 'f SequentialFilePtr = Original 'f | Decorated "'f ReadaheadSequentialFile"

definition NewReadaheadSequentialFile ::
  "'f SequentialFile \<Rightarrow> 'f \<Rightarrow> size_t \<Rightarrow> 'f SequentialFilePtr" where
  "NewReadaheadSequentialFile ops f rs =
     (if GetRequiredBufferAlignment ops f \<ge> rs then Original f
      else Decorated (new_ReadaheadSequentialFile ops f rs))"

subsection \<open>A file of known content\<close>

text \<open>
  Modelled from the spec: a raw sequential source of known content, as the testable
  properties of the spec use it: the bytes of the file, the position of the next
  sequential read, the alignment it requires and whether it uses direct I/O. A read
  returns the bytes from the position on, fewer than asked only at the end of the file;
  a skip moves the position; a positioned read leaves it alone. \<open>faults\<close> scripts I/O
  failures: each call consumes one entry and fails when it is \<open>True\<close>. \<open>calls\<close> logs
  every call with the position at which it was issued.
\<close>

datatype call =
    ReadCall size_t nat
  | SkipCall uint64_t nat
  | PositionedReadCall uint64_t size_t
  | InvalidateCacheCall size_t size_t

record source =
  contents :: "byte list"
  pos :: nat
  required_alignment :: size_t
  direct_io :: bool
  faults :: "bool list"
  calls :: "call list"

definition failing :: "source \<Rightarrow> bool" where
  "failing s = (case faults s of [] \<Rightarrow> False | b # bs \<Rightarrow> b)"

definition logged :: "call \<Rightarrow> source \<Rightarrow> source" where
  "logged c s = s\<lparr>faults := tl (faults s), calls := calls s @ [c]\<rparr>"

definition source_Read :: "size_t \<Rightarrow> Slice \<Rightarrow> source \<Rightarrow> Status \<times> Slice \<times> source" where
  "source_Read n result s =
     (if failing s then (IOError ''read'', result, logged (ReadCall n (pos s)) s)
      else (let bs = take (unat n) (drop (pos s) (contents s))
            in (OK, bs, (logged (ReadCall n (pos s)) s)\<lparr>pos := pos s + length bs\<rparr>)))"

definition source_Skip :: "uint64_t \<Rightarrow> source \<Rightarrow> Status \<times> source" where
  "source_Skip n s =
     (if failing s then (IOError ''skip'', logged (SkipCall n (pos s)) s)
      else (OK, (logged (SkipCall n (pos s)) s)\<lparr>pos := pos s + unat n\<rparr>))"

definition source_PositionedRead ::
  "uint64_t \<Rightarrow> size_t \<Rightarrow> Slice \<Rightarrow> source \<Rightarrow> Status \<times> Slice \<times> source" where
  "source_PositionedRead offs n result s =
     (if failing s then (IOError ''pread'', result, logged (PositionedReadCall offs n) s)
      else (OK, take (unat n) (drop (unat offs) (contents s)),
            logged (PositionedReadCall offs n) s))"

definition source_InvalidateCache :: "size_t \<Rightarrow> size_t \<Rightarrow> source \<Rightarrow> Status \<times> source" where
  "source_InvalidateCache offs len s =
     (if failing s then (IOError ''invalidate'', logged (InvalidateCacheCall offs len) s)
      else (OK, logged (InvalidateCacheCall offs len) s))"

definition source_ops :: "source SequentialFile" where
  "source_ops =
     \<lparr>Read = source_Read, Skip = source_Skip, PositionedRead = source_PositionedRead,
      InvalidateCache = source_InvalidateCache,
      GetRequiredBufferAlignment = required_alignment, use_direct_io = direct_io\<rparr>"

definition new_source :: "byte list \<Rightarrow> size_t \<Rightarrow> source" where
  "new_source bs a =
     \<lparr>contents = bs, pos = 0, required_alignment = a, direct_io = False, faults = [], calls = []\<rparr>"

subsection \<open>A caller\<close>

text \<open>
  A caller of the decorator issues requests one after the other, each read with a fresh,
  empty \<^verbatim>\<open>Slice\<close>. \<open>run\<close> returns the status and the bytes of every request and the
  state after the last one.
\<close>

datatype request = ReadReq size_t | SkipReq uint64_t | InvalidateReq size_t size_t

fun serve ::
  "'f SequentialFile \<Rightarrow> request \<Rightarrow> 'f ReadaheadSequentialFile
     \<Rightarrow> (Status \<times> Slice) \<times> 'f ReadaheadSequentialFile" where
  "serve ops (ReadReq n) st =
     (let (s, res, st1) = ReadaheadSequentialFile_Read ops n [] st in ((s, res), st1))"
| "serve ops (SkipReq n) st =
     (let (s, st1) = ReadaheadSequentialFile_Skip ops n st in ((s, []), st1))"
| "serve ops (InvalidateReq offs len) st =
     (let (s, st1) = ReadaheadSequentialFile_InvalidateCache ops offs len st in ((s, []), st1))"

fun run ::
  "'f SequentialFile \<Rightarrow> request list \<Rightarrow> 'f ReadaheadSequentialFile
     \<Rightarrow> (Status \<times> Slice) list \<times> 'f ReadaheadSequentialFile" where
  "run ops [] st = ([], st)"
| "run ops (q # qs) st =
     (let (a, st1) = serve ops q st;
          (as, st2) = run ops qs st1
      in (a # as, st2))"

text \<open>
  A caller of the wrapped file itself: the same reads, each with a fresh, empty
  \<^verbatim>\<open>Slice\<close>, issued to the file with no decorator in between.
\<close>

fun read_all ::
  "'f SequentialFile \<Rightarrow> size_t list \<Rightarrow> 'f \<Rightarrow> (Status \<times> Slice) list \<times> 'f" where
  "read_all ops [] f = ([], f)"
| "read_all ops (n # ns) f =
     (let (s, res, f1) = Read ops n [] f;
          (as, f2) = read_all ops ns f1
      in ((s, res) # as, f2))"

subsection \<open>The cursor along a run\<close>

text \<open>
  The values of \<^verbatim>\<open>read_offset_\<close> before the first request of a run and after each
  request, and the number of bytes a request asks for.
\<close>

fun cursors ::
  "'f SequentialFile \<Rightarrow> request list \<Rightarrow> 'f ReadaheadSequentialFile \<Rightarrow> uint64_t list" where
  "cursors ops [] st = [read_offset st]"
| "cursors ops (q # qs) st = read_offset st # cursors ops qs (snd (serve ops q st))"

fun requested :: "request \<Rightarrow> nat" where
  "requested (ReadReq n) = unat n"
| "requested (SkipReq n) = unat n"
| "requested (InvalidateReq offs len) = 0"

text \<open>
  The cursor is not beyond the end of a nonempty buffer, and that end fits 64 bits. The
  constructor establishes it (the buffer is empty) and the lemmas below show that reads,
  skips and invalidations keep it as long as the cursor stays below \<open>2^64\<close>.
\<close>

definition cursor_in_reach :: "'f ReadaheadSequentialFile \<Rightarrow> bool" where
  "cursor_in_reach st =
     (cursize (buffer st) = 0
      \<or> (unat (read_offset st) \<le> unat (buffer_offset st) + unat (cursize (buffer st))
         \<and> unat (buffer_offset st) + unat (cursize (buffer st)) < 2 ^ 64))"

subsection \<open>A decorator in step with its file\<close>

text \<open>
  The decorator over a file of known content is in step with the file when no fault is
  scripted, the length of the file plus the alignment is below \<open>2^64\<close>, the buffer has
  the capacity of one fill, and either the buffer is empty and the file stands at the
  cursor, or the buffer holds the bytes of the file from \<^verbatim>\<open>buffer_offset_\<close> up to the
  position of the file, the cursor lies in that range, and a buffer that is not full ends
  at the end of the file. The constructor establishes this (\<open>new_in_step\<close>,
  \<open>new_in_step_pow2\<close>); reads
  (\<open>Read_in_step\<close>, \<open>reads_in_step\<close>) and skips inside the file (\<open>Skip_in_step\<close>)
  keep it.
\<close>

definition in_step :: "source ReadaheadSequentialFile \<Rightarrow> bool" where
  "in_step st =
     (faults (ra_file st) = []
      \<and> length (contents (ra_file st)) + unat (alignment st) < 2 ^ 64
      \<and> capacity (buffer st) = readahead_size st
      \<and> pos (ra_file st) \<le> length (contents (ra_file st))
      \<and> (if cursize (buffer st) = 0 then unat (read_offset st) = pos (ra_file st)
         else unat (buffer_offset st) \<le> unat (read_offset st)
            \<and> unat (read_offset st) \<le> pos (ra_file st)
            \<and> unat (buffer_offset st) + unat (cursize (buffer st)) = pos (ra_file st)
            \<and> unat (cursize (buffer st)) \<le> unat (readahead_size st)
            \<and> (unat (cursize (buffer st)) = unat (readahead_size st)
                \<or> pos (ra_file st) = length (contents (ra_file st)))
            \<and> take (unat (cursize (buffer st))) (bufstart (buffer st))
                = take (unat (cursize (buffer st)))
                    (drop (unat (buffer_offset st)) (contents (ra_file st)))))"

text \<open>
  A call on a decorator \<open>st\<close> delivers the next \<open>m\<close> bytes of the file when it returns
  OK with the \<open>m\<close> bytes of the file that follow the cursor of \<open>st\<close>, advances the cursor
  by \<open>m\<close>, and leaves the decorator in step with the same file content.
\<close>

definition delivers ::
  "nat \<Rightarrow> source ReadaheadSequentialFile
     \<Rightarrow> Status \<times> Slice \<times> source ReadaheadSequentialFile \<Rightarrow> bool" where
  "delivers m st R =
     (fst R = OK
      \<and> fst (snd R) = take m (drop (unat (read_offset st)) (contents (ra_file st)))
      \<and> unat (read_offset st) + m \<le> length (contents (ra_file st))
      \<and> unat (read_offset (snd (snd R))) = unat (read_offset st) + m
      \<and> in_step (snd (snd R))
      \<and> contents (ra_file (snd (snd R))) = contents (ra_file st)
      \<and> alignment (snd (snd R)) = alignment st
      \<and> readahead_size (snd (snd R)) = readahead_size st)"

section \<open>Properties\<close>

subsection \<open>Unfolding rules and list facts\<close>

lemmas source_simps = source_ops_def new_source_def source_Read_def source_Skip_def
  failing_def logged_def ok_def
lemmas buffer_simps = CurrentSize_def Capacity_def Size_def Clear_def store_def
  AllocateNewBuffer_def Alignment_def new_AlignedBuffer_def
lemmas readahead_simps = ReadaheadSequentialFile_Read_def TryReadFromCache_def
  ReadIntoBuffer_def Let_def

lemma drop_take_append_take:
  "a \<le> b \<Longrightarrow> drop a (take b xs) @ take c (drop b xs) = take (b - a + c) (drop a xs)"
proof -
  assume ab: "a \<le> b"
  have "drop a (take b xs) = take (b - a) (drop a xs)"
    by (simp add: drop_take)
  moreover have "take c (drop b xs) = take c (drop (b - a) (drop a xs))"
    using ab by simp
  ultimately show ?thesis
    by (simp only: take_add)
qed

text \<open>
  Claim C1. With alignment 512 and a requested readahead size of 1000 the factory builds a
  decorator whose readahead size is 1024. Over a file of 2000 bytes, from position 0:
  \<open>Read(100)\<close> issues one read of 1024 bytes on the wrapped file and returns the bytes
  \<open>[0,100)\<close>; the following \<open>Read(500)\<close> returns the bytes \<open>[100,600)\<close> and issues no
  read on the wrapped file; the following \<open>Read(1000)\<close> copies the 424 cached bytes
  \<open>[600,1024)\<close>, issues one read of 576 bytes on the wrapped file, which stands at
  position 1024, clears the buffer and returns the 1000 bytes \<open>[600,1600)\<close>.
\<close>

theorem scenario_512_1000:
  assumes len: "length bs = 2000"
  shows "let d0 = new_ReadaheadSequentialFile source_ops (new_source bs 512) 1000;
             c1 = ReadaheadSequentialFile_Read source_ops 100 [] d0;
             c2 = ReadaheadSequentialFile_Read source_ops 500 [] (snd (snd c1));
             c3 = ReadaheadSequentialFile_Read source_ops 1000 [] (snd (snd c2))
         in NewReadaheadSequentialFile source_ops (new_source bs 512) 1000 = Decorated d0
          \<and> readahead_size d0 = 1024
          \<and> fst c1 = OK \<and> fst (snd c1) = take 100 bs
          \<and> calls (ra_file (snd (snd c1))) = [ReadCall 1024 0]
          \<and> fst c2 = OK \<and> fst (snd c2) = take 500 (drop 100 bs)
          \<and> calls (ra_file (snd (snd c2))) = [ReadCall 1024 0]
          \<and> TryReadFromCache 1000 (snd (snd c2))
               = (True, 424, take 424 (drop 600 bs), (snd (snd c2))\<lparr>read_offset := 1024\<rparr>)
          \<and> fst c3 = OK \<and> fst (snd c3) = take 1000 (drop 600 bs)
          \<and> length (fst (snd c3)) = 1000
          \<and> calls (ra_file (snd (snd c3))) = [ReadCall 1024 0, ReadCall 576 1024]
          \<and> CurrentSize (buffer (snd (snd c3))) = 0"
proof -
  define d0 where "d0 = new_ReadaheadSequentialFile source_ops (new_source bs 512) 1000"
  define c1 where "c1 = ReadaheadSequentialFile_Read source_ops 100 [] d0"
  define c2 where "c2 = ReadaheadSequentialFile_Read source_ops 500 [] (snd (snd c1))"
  define c3 where "c3 = ReadaheadSequentialFile_Read source_ops 1000 [] (snd (snd c2))"
  have d0: "d0 = \<lparr>ra_file = new_source bs 512, alignment = 512, readahead_size = 1024,
      buffer = \<lparr>buf_alignment = 512, capacity = 1024, cursize = 0, bufstart = []\<rparr>,
      buffer_offset = 0, read_offset = 0\<rparr>"
    by (simp add: d0_def new_ReadaheadSequentialFile_def source_simps buffer_simps Roundup_def)
  have c1: "c1 = (OK, take 100 bs,
      \<lparr>ra_file = \<lparr>contents = bs, pos = 1024, required_alignment = 512, direct_io = False,
                   faults = [], calls = [ReadCall 1024 0]\<rparr>,
       alignment = 512, readahead_size = 1024,
       buffer = \<lparr>buf_alignment = 512, capacity = 1024, cursize = 1024, bufstart = take 1024 bs\<rparr>,
       buffer_offset = 0, read_offset = 100\<rparr>)"
    using len by (simp add: c1_def d0 readahead_simps source_simps buffer_simps)
  have c2: "c2 = (OK, take 500 (drop 100 bs),
      \<lparr>ra_file = \<lparr>contents = bs, pos = 1024, required_alignment = 512, direct_io = False,
                   faults = [], calls = [ReadCall 1024 0]\<rparr>,
       alignment = 512, readahead_size = 1024,
       buffer = \<lparr>buf_alignment = 512, capacity = 1024, cursize = 1024, bufstart = take 1024 bs\<rparr>,
       buffer_offset = 0, read_offset = 600\<rparr>)"
    using len by (simp add: c2_def c1 readahead_simps source_simps buffer_simps take_drop)
  have c3: "c3 = (OK, take 1000 (drop 600 bs),
      \<lparr>ra_file = \<lparr>contents = bs, pos = 1600, required_alignment = 512, direct_io = False,
                   faults = [], calls = [ReadCall 1024 0, ReadCall 576 1024]\<rparr>,
       alignment = 512, readahead_size = 1024,
       buffer = \<lparr>buf_alignment = 512, capacity = 1024, cursize = 0, bufstart = take 1024 bs\<rparr>,
       buffer_offset = 0, read_offset = 1600\<rparr>)"
    using len by (simp add: c3_def c2 readahead_simps source_simps buffer_simps
        drop_take_append_take)
  have factory: "NewReadaheadSequentialFile source_ops (new_source bs 512) 1000 = Decorated d0"
    by (simp add: NewReadaheadSequentialFile_def d0_def source_simps)
  have hit3: "TryReadFromCache 1000 (snd (snd c2))
           = (True, 424, take 424 (drop 600 bs), (snd (snd c2))\<lparr>read_offset := 1024\<rparr>)"
    using len by (simp add: c2 TryReadFromCache_def buffer_simps Let_def take_drop)
  have "NewReadaheadSequentialFile source_ops (new_source bs 512) 1000 = Decorated d0
          \<and> readahead_size d0 = 1024
          \<and> fst c1 = OK \<and> fst (snd c1) = take 100 bs
          \<and> calls (ra_file (snd (snd c1))) = [ReadCall 1024 0]
          \<and> fst c2 = OK \<and> fst (snd c2) = take 500 (drop 100 bs)
          \<and> calls (ra_file (snd (snd c2))) = [ReadCall 1024 0]
          \<and> TryReadFromCache 1000 (snd (snd c2))
               = (True, 424, take 424 (drop 600 bs), (snd (snd c2))\<lparr>read_offset := 1024\<rparr>)
          \<and> fst c3 = OK \<and> fst (snd c3) = take 1000 (drop 600 bs)
          \<and> length (fst (snd c3)) = 1000
          \<and> calls (ra_file (snd (snd c3))) = [ReadCall 1024 0, ReadCall 576 1024]
          \<and> CurrentSize (buffer (snd (snd c3))) = 0"
    unfolding hit3 factory using len by (simp add: d0 c1 c2 c3 CurrentSize_def)
  then show ?thesis
    unfolding Let_def d0_def c1_def c2_def c3_def .
qed

text \<open>The scenario on the file whose byte at position \<open>i\<close> is \<open>i mod 256\<close>.\<close>

theorem scenario_512_1000_witness:
  "length (map word_of_nat [0..<2000] :: byte list) = 2000
   \<and> (let bs = map word_of_nat [0..<2000] :: byte list;
          d0 = new_ReadaheadSequentialFile source_ops (new_source bs 512) 1000;
          c1 = ReadaheadSequentialFile_Read source_ops 100 [] d0;
          c2 = ReadaheadSequentialFile_Read source_ops 500 [] (snd (snd c1));
          c3 = ReadaheadSequentialFile_Read source_ops 1000 [] (snd (snd c2))
      in fst (snd c1) = take 100 bs \<and> fst (snd c2) = take 500 (drop 100 bs)
         \<and> fst (snd c3) = take 1000 (drop 600 bs)
         \<and> calls (ra_file (snd (snd c3))) = [ReadCall 1024 0, ReadCall 576 1024])"
proof -
  have len: "length (map word_of_nat [0..<2000] :: byte list) = 2000"
    by simp
  from scenario_512_1000 [OF len] have "let bs = map word_of_nat [0..<2000] :: byte list;
          d0 = new_ReadaheadSequentialFile source_ops (new_source bs 512) 1000;
          c1 = ReadaheadSequentialFile_Read source_ops 100 [] d0;
          c2 = ReadaheadSequentialFile_Read source_ops 500 [] (snd (snd c1));
          c3 = ReadaheadSequentialFile_Read source_ops 1000 [] (snd (snd c2))
      in fst (snd c1) = take 100 bs \<and> fst (snd c2) = take 500 (drop 100 bs)
         \<and> fst (snd c3) = take 1000 (drop 600 bs)
         \<and> calls (ra_file (snd (snd c3))) = [ReadCall 1024 0, ReadCall 576 1024]"
    unfolding Let_def by blast
  with len show ?thesis by (rule conjI)
qed

subsection \<open>Rounding to the alignment\<close>

lemma roundup_nat_bounds:
  fixes x a :: nat
  assumes "0 < a"
  shows "x \<le> ((x + a - 1) div a) * a" and "((x + a - 1) div a) * a \<le> x + a - 1"
    and "((x + a - 1) div a) * a mod a = 0"
proof -
  define m where "m = (x + a - 1) mod a"
  define q where "q = (x + a - 1) div a"
  have split: "q * a + m = x + a - 1"
    unfolding q_def m_def by simp
  have "m < a"
    unfolding m_def using assms by simp
  with split show "x \<le> ((x + a - 1) div a) * a"
    unfolding q_def [symmetric] by linarith
  from split show "((x + a - 1) div a) * a \<le> x + a - 1"
    unfolding q_def [symmetric] by linarith
  show "((x + a - 1) div a) * a mod a = 0" by simp
qed

lemma unat_Roundup:
  assumes "y \<noteq> 0" and "unat x + unat y \<le> 2 ^ 64"
  shows "unat (Roundup x y) = ((unat x + unat y - 1) div unat y) * unat y"
proof -
  have pos: "0 < unat y" using assms(1) by (simp add: unat_gt_0)
  have "((unat x + unat y - 1) div unat y) * unat y \<le> unat x + unat y - 1"
    by (rule roundup_nat_bounds(2) [OF pos])
  also have "\<dots> < 2 ^ 64" using assms(2) pos by linarith
  finally have "((unat x + unat y - 1) div unat y) * unat y < 2 ^ LENGTH(64)"
    by simp
  then show ?thesis
    unfolding Roundup_def unat_of_nat by (rule mod_less)
qed

lemma Roundup_bounds:
  assumes "y \<noteq> 0" and "unat x + unat y \<le> 2 ^ 64"
  shows "unat x \<le> unat (Roundup x y)" and "unat (Roundup x y) < unat x + unat y"
    and "unat (Roundup x y) mod unat y = 0"
proof -
  have pos: "0 < unat y" using assms(1) by (simp add: unat_gt_0)
  note r = roundup_nat_bounds [OF pos, of "unat x"]
  show "unat x \<le> unat (Roundup x y)"
    using r(1) unfolding unat_Roundup [OF assms] .
  show "unat (Roundup x y) < unat x + unat y"
    using r(2) pos unfolding unat_Roundup [OF assms] by linarith
  show "unat (Roundup x y) mod unat y = 0"
    unfolding unat_Roundup [OF assms] by simp
qed

lemma unat_TruncateToPageBoundary:
  "unat (TruncateToPageBoundary a s) = unat s - unat s mod unat a"
proof -
  have "unat (s mod a) \<le> unat s"
    by (simp add: unat_mod)
  then have "s mod a \<le> s"
    by (simp add: word_le_nat_alt)
  then show ?thesis
    by (simp add: TruncateToPageBoundary_def unat_sub unat_mod)
qed

lemma unat_pow2:
  assumes "k < 64"
  shows "unat (2 ^ k :: size_t) = 2 ^ k"
proof -
  have "(2 :: nat) ^ k < 2 ^ 64"
    by (rule power_strict_increasing [OF assms]) simp
  then have "(2 :: nat) ^ k mod 2 ^ LENGTH(64) = 2 ^ k"
    by simp
  moreover have "(2 ^ k :: size_t) = word_of_nat (2 ^ k)"
    by simp
  ultimately show ?thesis
    by (simp only: unat_of_nat)
qed

lemma pow2_nonzero:
  assumes "k < 64"
  shows "(2 ^ k :: size_t) \<noteq> 0"
proof
  assume "(2 ^ k :: size_t) = 0"
  then have "unat (2 ^ k :: size_t) = unat (0 :: size_t)"
    by (rule arg_cong)
  then have "(2 :: nat) ^ k = 0"
    unfolding unat_pow2 [OF assms] by simp
  then show False
    by simp
qed


subsection \<open>The factory\<close>

text \<open>
  Claim C8, as amended. The factory returns the file it was given, unwrapped, when the
  alignment the file requires is greater than or equal to the requested readahead size.
  Otherwise it returns a decorator over that file, with the alignment of the file, whose
  readahead size is \<^verbatim>\<open>Roundup\<close> of the requested size and the alignment. When the
  alignment is not zero and the requested size plus the alignment does not exceed
  \<open>2^64\<close>, that is the requested size rounded up: a multiple of the alignment, at least
  the requested size and less than one alignment unit above it.
\<close>

theorem factory_identity_or_decorator:
  "(rs \<le> GetRequiredBufferAlignment ops f \<longrightarrow>
      NewReadaheadSequentialFile ops f rs = Original f)
   \<and> (GetRequiredBufferAlignment ops f < rs \<longrightarrow>
      (\<exists>d. NewReadaheadSequentialFile ops f rs = Decorated d
         \<and> ra_file d = f
         \<and> alignment d = GetRequiredBufferAlignment ops f
         \<and> readahead_size d = Roundup rs (GetRequiredBufferAlignment ops f)
         \<and> (GetRequiredBufferAlignment ops f \<noteq> 0
              \<and> unat rs + unat (GetRequiredBufferAlignment ops f) \<le> 2 ^ 64 \<longrightarrow>
            unat (readahead_size d) mod unat (alignment d) = 0
            \<and> unat rs \<le> unat (readahead_size d)
            \<and> unat (readahead_size d) < unat rs + unat (alignment d))))"
proof (intro conjI impI)
  assume "rs \<le> GetRequiredBufferAlignment ops f"
  then show "NewReadaheadSequentialFile ops f rs = Original f"
    by (simp add: NewReadaheadSequentialFile_def)
next
  assume lt: "GetRequiredBufferAlignment ops f < rs"
  let ?a = "GetRequiredBufferAlignment ops f"
  let ?d = "new_ReadaheadSequentialFile ops f rs"
  have new: "NewReadaheadSequentialFile ops f rs = Decorated ?d"
    using lt by (simp add: NewReadaheadSequentialFile_def not_le [symmetric])
  have fields: "ra_file ?d = f" "alignment ?d = ?a" "readahead_size ?d = Roundup rs ?a"
    by (simp_all add: new_ReadaheadSequentialFile_def Let_def)
  have rounded: "?a \<noteq> 0 \<and> unat rs + unat ?a \<le> 2 ^ 64 \<longrightarrow>
            unat (readahead_size ?d) mod unat (alignment ?d) = 0
            \<and> unat rs \<le> unat (readahead_size ?d)
            \<and> unat (readahead_size ?d) < unat rs + unat (alignment ?d)"
    unfolding fields using Roundup_bounds [of ?a rs] by blast
  show "\<exists>d. NewReadaheadSequentialFile ops f rs = Decorated d
         \<and> ra_file d = f
         \<and> alignment d = GetRequiredBufferAlignment ops f
         \<and> readahead_size d = Roundup rs (GetRequiredBufferAlignment ops f)
         \<and> (GetRequiredBufferAlignment ops f \<noteq> 0
              \<and> unat rs + unat (GetRequiredBufferAlignment ops f) \<le> 2 ^ 64 \<longrightarrow>
            unat (readahead_size d) mod unat (alignment d) = 0
            \<and> unat rs \<le> unat (readahead_size d)
            \<and> unat (readahead_size d) < unat rs + unat (alignment d))"
    by (rule exI [of _ ?d], intro conjI, rule new, rule fields(1), rule fields(2),
        rule fields(3), rule rounded)
qed

text \<open>A file of alignment 512: size 512 leaves it unwrapped, size 1000 wraps it.\<close>

theorem factory_identity_or_decorator_witness:
  "NewReadaheadSequentialFile source_ops (new_source [1, 2, 3] 512) 512
      = Original (new_source [1, 2, 3] 512)
   \<and> (\<exists>d. NewReadaheadSequentialFile source_ops (new_source [1, 2, 3] 512) 1000 = Decorated d
         \<and> ra_file d = new_source [1, 2, 3] 512 \<and> alignment d = 512
         \<and> unat (readahead_size d) mod 512 = 0
         \<and> 1000 \<le> unat (readahead_size d) \<and> unat (readahead_size d) < 1512)"
proof -
  let ?f = "new_source [1, 2, 3] 512"
  have a: "GetRequiredBufferAlignment source_ops ?f = 512"
    by (simp add: source_ops_def new_source_def)
  have le: "(512 :: size_t) \<le> GetRequiredBufferAlignment source_ops ?f"
    unfolding a by simp
  have lt: "GetRequiredBufferAlignment source_ops ?f < (1000 :: size_t)"
    unfolding a by simp
  have fits: "GetRequiredBufferAlignment source_ops ?f \<noteq> 0
      \<and> unat (1000 :: size_t) + unat (GetRequiredBufferAlignment source_ops ?f) \<le> 2 ^ 64"
    unfolding a by simp
  note fact = factory_identity_or_decorator [of _ source_ops ?f]
  have first: "NewReadaheadSequentialFile source_ops ?f 512 = Original ?f"
    by (rule mp [OF conjunct1 [OF fact [of 512]] le])
  from mp [OF conjunct2 [OF fact [of 1000]] lt]
  obtain d where d: "NewReadaheadSequentialFile source_ops ?f 1000 = Decorated d"
      "ra_file d = ?f" "alignment d = GetRequiredBufferAlignment source_ops ?f"
      and imp: "GetRequiredBufferAlignment source_ops ?f \<noteq> 0
              \<and> unat (1000 :: size_t) + unat (GetRequiredBufferAlignment source_ops ?f) \<le> 2 ^ 64 \<longrightarrow>
            unat (readahead_size d) mod unat (alignment d) = 0
            \<and> unat (1000 :: size_t) \<le> unat (readahead_size d)
            \<and> unat (readahead_size d) < unat (1000 :: size_t) + unat (alignment d)"
    by (elim exE conjE)
  note r = mp [OF imp fits]
  have al: "alignment d = 512"
    using d(3) unfolding a .
  have "unat (readahead_size d) mod 512 = 0
         \<and> 1000 \<le> unat (readahead_size d) \<and> unat (readahead_size d) < 1512"
    using r unfolding al by simp
  with d(1,2) al have "\<exists>d. NewReadaheadSequentialFile source_ops ?f 1000 = Decorated d
         \<and> ra_file d = ?f \<and> alignment d = 512
         \<and> unat (readahead_size d) mod 512 = 0
         \<and> 1000 \<le> unat (readahead_size d) \<and> unat (readahead_size d) < 1512"
    by (intro exI [of _ d] conjI) simp_all
  with first show ?thesis by (rule conjI)
qed

text \<open>
  The claim as stated fails where the rounding wraps. A file of alignment 512 is wrapped
  for the requested size \<open>2^64 - 1\<close>, which is above the alignment; the next multiple of
  512 is \<open>2^64\<close>, and the decorator stores the readahead size 0, which is below the
  requested size.
\<close>

theorem factory_rounding_wraps_counterexample:
  "NewReadaheadSequentialFile source_ops (new_source [1, 2, 3] 512) 18446744073709551615
     = Decorated
        \<lparr>ra_file = new_source [1, 2, 3] 512, alignment = 512, readahead_size = 0,
         buffer = \<lparr>buf_alignment = 512, capacity = 0, cursize = 0, bufstart = []\<rparr>,
         buffer_offset = 0, read_offset = 0\<rparr>
   \<and> (512 :: size_t) < 18446744073709551615
   \<and> \<not> (18446744073709551615 :: size_t) \<le> 0"
  by (simp add: NewReadaheadSequentialFile_def new_ReadaheadSequentialFile_def Let_def
      source_ops_def new_source_def buffer_simps Roundup_def)

subsection \<open>The direct-I/O read adapter\<close>

lemma unat_min: "unat (min a b) = min (unat a) (unat b)"
  by (simp add: min_def word_le_nat_alt)

lemma unat_word_of_nat_length:
  "length (xs :: 'a list) < 2 ^ 64 \<Longrightarrow> unat (word_of_nat (length xs) :: size_t) = length xs"
  by (simp add: unat_of_nat)

text \<open>
  Claim C9. With direct I/O active, when the positioned read of the aligned range
  succeeds and returns \<open>tmp\<close>: if \<open>tmp\<close> has at least \<open>offset_advance\<close> bytes the result is
  the \<open>min (length tmp - offset_advance) n\<close> bytes of \<open>tmp\<close> from \<open>offset_advance\<close> on,
  and otherwise it is empty. The cursor has advanced by \<open>n\<close>.
\<close>

theorem direct_io_read_result:
  assumes dio: "use_direct_io ops (reader_file r)"
    and pread: "PositionedRead ops
         (TruncateToPageBoundary (GetRequiredBufferAlignment ops (reader_file r)) (offset r))
         (Roundup (offset r + n) (GetRequiredBufferAlignment ops (reader_file r))
            - TruncateToPageBoundary (GetRequiredBufferAlignment ops (reader_file r)) (offset r))
         [] (reader_file r) = (OK, tmp, f)"
    and len: "length tmp < 2 ^ 64"
  shows "SequentialFileReader_Read ops n result r =
     (let offset_advance = unat (offset r
            - TruncateToPageBoundary (GetRequiredBufferAlignment ops (reader_file r)) (offset r))
      in (OK,
          (if offset_advance \<le> length tmp
           then take (min (length tmp - offset_advance) (unat n)) (drop offset_advance tmp)
           else []),
          r\<lparr>offset := offset r + n, reader_file := f\<rparr>))"
proof -
  define adv where "adv = offset r
     - TruncateToPageBoundary (GetRequiredBufferAlignment ops (reader_file r)) (offset r)"
  define tmp_size where "tmp_size = (word_of_nat (length tmp) :: size_t)"
  have ts: "unat tmp_size = length tmp"
    unfolding tmp_size_def by (rule unat_word_of_nat_length [OF len])
  have res: "(if ok OK \<and> adv < tmp_size
              then buf_Read adv (min (tmp_size - adv) n)
                     (Size tmp_size (store tmp (AllocateNewBuffer sz (Alignment a new_AlignedBuffer))))
              else [])
           = (if unat adv \<le> length tmp
              then take (min (length tmp - unat adv) (unat n)) (drop (unat adv) tmp)
              else [])" for sz a
  proof (cases "adv < tmp_size")
    case True
    then have lt: "unat adv < length tmp"
      by (simp add: word_less_nat_alt ts)
    from True have "unat (tmp_size - adv) = length tmp - unat adv"
      by (simp add: unat_sub ts)
    then have "unat (min (tmp_size - adv) (min (tmp_size - adv) n))
        = min (length tmp - unat adv) (unat n)"
      by (simp add: unat_min)
    with True lt show ?thesis
      by (simp add: ok_def buf_Read_def Size_def store_def AllocateNewBuffer_def)
  next
    case False
    then have "length tmp \<le> unat adv"
      by (simp add: word_less_nat_alt ts)
    with False show ?thesis
      by auto
  qed
  have "SequentialFileReader_Read ops n result r =
      (OK,
       (if ok OK \<and> adv < tmp_size
        then buf_Read adv (min (tmp_size - adv) n)
               (Size tmp_size (store tmp (AllocateNewBuffer
                  (Roundup (offset r + n) (GetRequiredBufferAlignment ops (reader_file r))
                     - TruncateToPageBoundary (GetRequiredBufferAlignment ops (reader_file r)) (offset r))
                  (Alignment (GetRequiredBufferAlignment ops (reader_file r)) new_AlignedBuffer))))
        else []),
       r\<lparr>offset := offset r + n, reader_file := f\<rparr>)"
    unfolding SequentialFileReader_Read_def Let_def adv_def tmp_size_def
    using dio pread by simp
  then show ?thesis
    unfolding Let_def adv_def [symmetric] by (simp only: res)
qed

text \<open>
  A file of six bytes with alignment 4 and direct I/O. At offset 5, \<open>Read(10)\<close> reads the
  aligned range \<open>[4,16)\<close>, gets the two bytes \<open>[4,6)\<close> and returns the one at offset 5;
  at offset 9 the aligned read returns nothing and the result is empty.
\<close>

theorem direct_io_read_result_witness:
  "SequentialFileReader_Read source_ops 10 []
      \<lparr>reader_file = (new_source [10, 20, 30, 40, 50, 60] 4)\<lparr>direct_io := True\<rparr>, offset = 5\<rparr>
     = (OK, [60],
        \<lparr>reader_file = (new_source [10, 20, 30, 40, 50, 60] 4)
            \<lparr>direct_io := True, calls := [PositionedReadCall 4 12]\<rparr>, offset = 15\<rparr>)
   \<and> SequentialFileReader_Read source_ops 10 []
      \<lparr>reader_file = (new_source [10, 20, 30, 40, 50, 60] 4)\<lparr>direct_io := True\<rparr>, offset = 9\<rparr>
     = (OK, [],
        \<lparr>reader_file = (new_source [10, 20, 30, 40, 50, 60] 4)
            \<lparr>direct_io := True, calls := [PositionedReadCall 8 12]\<rparr>, offset = 19\<rparr>)"
proof -
  let ?s = "(new_source [10, 20, 30, 40, 50, 60] 4)\<lparr>direct_io := True\<rparr>"
  have dio: "use_direct_io source_ops ?s"
    by (simp add: source_ops_def new_source_def)
  have al: "GetRequiredBufferAlignment source_ops ?s = 4"
    by (simp add: source_ops_def new_source_def)
  have t5: "TruncateToPageBoundary 4 (5 :: size_t) = 4" and t9: "TruncateToPageBoundary 4 (9 :: size_t) = 8"
    by (simp_all add: TruncateToPageBoundary_def)
  have r15: "Roundup 15 4 = 16" and r19: "Roundup 19 4 = 20"
    by (simp_all add: Roundup_def)
  have p5: "PositionedRead source_ops 4 12 [] ?s
      = (OK, [50, 60], ?s\<lparr>calls := [PositionedReadCall 4 12]\<rparr>)"
    by (simp add: source_ops_def new_source_def source_PositionedRead_def failing_def logged_def)
  have p9: "PositionedRead source_ops 8 12 [] ?s
      = (OK, [], ?s\<lparr>calls := [PositionedReadCall 8 12]\<rparr>)"
    by (simp add: source_ops_def new_source_def source_PositionedRead_def failing_def logged_def)
  have "SequentialFileReader_Read source_ops 10 [] \<lparr>reader_file = ?s, offset = 5\<rparr>
     = (OK, [60], \<lparr>reader_file = ?s\<lparr>calls := [PositionedReadCall 4 12]\<rparr>, offset = 15\<rparr>)"
    using direct_io_read_result [of source_ops "\<lparr>reader_file = ?s, offset = 5\<rparr>" 10
        "[50, 60]" "?s\<lparr>calls := [PositionedReadCall 4 12]\<rparr>" "[]"]
    by (simp add: dio al t5 r15 p5)
  moreover
  have "SequentialFileReader_Read source_ops 10 [] \<lparr>reader_file = ?s, offset = 9\<rparr>
     = (OK, [], \<lparr>reader_file = ?s\<lparr>calls := [PositionedReadCall 8 12]\<rparr>, offset = 19\<rparr>)"
    using direct_io_read_result [of source_ops "\<lparr>reader_file = ?s, offset = 9\<rparr>" 10
        "[]" "?s\<lparr>calls := [PositionedReadCall 8 12]\<rparr>" "[]"]
    by (simp add: dio al t9 r19 p9)
  ultimately show ?thesis
    by simp
qed

subsection \<open>The aligned range\<close>

lemma aligned_range_nat:
  fixes offs n a :: nat
  assumes "0 < a"
  shows "offs - offs mod a \<le> offs"
    and "offs + n \<le> ((offs + n + a - 1) div a) * a"
    and "(((offs + n + a - 1) div a) * a - (offs - offs mod a)) mod a = 0"
    and "offs - offs mod a \<le> ((offs + n + a - 1) div a) * a"
proof -
  show "offs - offs mod a \<le> offs" by simp
  show up: "offs + n \<le> ((offs + n + a - 1) div a) * a"
    using roundup_nat_bounds(1) [OF assms, of "offs + n"] .
  then show le: "offs - offs mod a \<le> ((offs + n + a - 1) div a) * a"
    by linarith
  have "a dvd offs - offs mod a"
    by (simp add: dvd_minus_mod)
  moreover have "a dvd ((offs + n + a - 1) div a) * a"
    by simp
  ultimately have "a dvd ((offs + n + a - 1) div a) * a - (offs - offs mod a)"
    by (rule dvd_diff_nat [rotated])
  then show "(((offs + n + a - 1) div a) * a - (offs - offs mod a)) mod a = 0"
    by simp
qed

lemma aligned_range_word:
  fixes offs n a :: size_t
  assumes a: "a \<noteq> 0" and fits: "unat offs + unat n + unat a \<le> 2 ^ 64"
  defines "ao \<equiv> TruncateToPageBoundary a offs"
  defines "sz \<equiv> Roundup (offs + n) a - ao"
  shows "unat ao \<le> unat offs" and "unat offs + unat n \<le> unat ao + unat sz"
    and "unat ao mod unat a = 0" and "unat sz mod unat a = 0"
proof -
  have pos: "0 < unat a"
    using a by (simp add: unat_gt_0)
  have ao: "unat ao = unat offs - unat offs mod unat a"
    unfolding ao_def by (rule unat_TruncateToPageBoundary)
  have "unat offs + unat n < 2 ^ LENGTH(64)"
    using fits pos by simp
  then have sum: "unat (offs + n) = unat offs + unat n"
    by (simp only: unat_add_lem)
  have up: "unat (Roundup (offs + n) a)
      = ((unat offs + unat n + unat a - 1) div unat a) * unat a"
    using unat_Roundup [of a "offs + n"] a fits unfolding sum by simp
  have r: "unat offs + unat n \<le> ((unat offs + unat n + unat a - 1) div unat a) * unat a"
      "(((unat offs + unat n + unat a - 1) div unat a) * unat a
          - (unat offs - unat offs mod unat a)) mod unat a = 0"
      "unat offs - unat offs mod unat a \<le> ((unat offs + unat n + unat a - 1) div unat a) * unat a"
    by (rule aligned_range_nat [OF pos])+
  have "unat ao \<le> unat (Roundup (offs + n) a)"
    unfolding ao up by (rule r(3))
  then have "ao \<le> Roundup (offs + n) a"
    by (simp add: word_le_nat_alt)
  then have sz: "unat sz = ((unat offs + unat n + unat a - 1) div unat a) * unat a
      - (unat offs - unat offs mod unat a)"
    unfolding sz_def by (simp add: unat_sub up ao)
  show "unat ao \<le> unat offs"
    unfolding ao by simp
  show "unat offs + unat n \<le> unat ao + unat sz"
    unfolding ao sz using r(1) r(3) by linarith
  show "unat ao mod unat a = 0"
    unfolding ao by (simp add: dvd_minus_mod)
  show "unat sz mod unat a = 0"
    unfolding sz by (rule r(2))
qed

lemma direct_io_read_calls:
  assumes "direct_io s" and "reader_file r = s"
  shows "calls (reader_file (snd (snd (SequentialFileReader_Read source_ops n result r))))
     = calls s @ [PositionedReadCall (TruncateToPageBoundary (required_alignment s) (offset r))
         (Roundup (offset r + n) (required_alignment s)
            - TruncateToPageBoundary (required_alignment s) (offset r))]"
  using assms
  by (simp add: SequentialFileReader_Read_def Let_def source_ops_def source_PositionedRead_def
      logged_def split: prod.splits)

text \<open>
  Claim C3, as amended. With direct I/O, \<open>Read(n)\<close> at the cursor \<open>offset\<close> issues one
  positioned read, of the range that starts at the cursor truncated to the alignment and
  whose length is the rounded end minus that start. When the alignment is a power of two
  and \<open>offset + n + alignment\<close> does not exceed \<open>2^64\<close>, the range contains
  \<open>[offset, offset + n)\<close>, and its start and its length are multiples of the alignment.
\<close>

theorem aligned_range_covers_request:
  assumes "direct_io s" and "reader_file r = s"
    and "required_alignment s = 2 ^ k" and "k < 64"
    and "unat (offset r) + unat n + unat (required_alignment s) \<le> 2 ^ 64"
  shows "\<exists>aligned_offset sz.
      calls (reader_file (snd (snd (SequentialFileReader_Read source_ops n result r))))
        = calls s @ [PositionedReadCall aligned_offset sz]
    \<and> aligned_offset = TruncateToPageBoundary (required_alignment s) (offset r)
    \<and> sz = Roundup (offset r + n) (required_alignment s) - aligned_offset
    \<and> unat aligned_offset \<le> unat (offset r)
    \<and> unat (offset r) + unat n \<le> unat aligned_offset + unat sz
    \<and> unat aligned_offset mod unat (required_alignment s) = 0
    \<and> unat sz mod unat (required_alignment s) = 0"
proof -
  let ?ao = "TruncateToPageBoundary (required_alignment s) (offset r)"
  let ?sz = "Roundup (offset r + n) (required_alignment s) - ?ao"
  have nz: "required_alignment s \<noteq> 0"
    unfolding assms(3) by (rule pow2_nonzero [OF assms(4)])
  note range = aligned_range_word [OF nz assms(5)]
  show ?thesis
    by (rule exI [of _ ?ao], rule exI [of _ ?sz], intro conjI,
        rule direct_io_read_calls [OF assms(1,2)], rule refl, rule refl,
        rule range(1), rule range(2), rule range(3), rule range(4))
qed

text \<open>
  A file of alignment \<open>512 = 2^9\<close> with direct I/O: \<open>Read(200)\<close> at offset 500 reads
  \<open>[0,1024)\<close>.
\<close>

theorem aligned_range_covers_request_witness:
  "\<exists>aligned_offset sz.
      calls (reader_file (snd (snd (SequentialFileReader_Read source_ops 200 []
          \<lparr>reader_file = (new_source [] 512)\<lparr>direct_io := True\<rparr>, offset = 500\<rparr>))))
        = [PositionedReadCall aligned_offset sz]
    \<and> aligned_offset = 0 \<and> sz = 1024
    \<and> unat aligned_offset \<le> 500 \<and> 700 \<le> unat aligned_offset + unat sz
    \<and> unat aligned_offset mod 512 = 0 \<and> unat sz mod 512 = 0"
proof -
  let ?s = "(new_source [] 512)\<lparr>direct_io := True\<rparr>"
  let ?r = "\<lparr>reader_file = ?s, offset = 500\<rparr>"
  have h: "direct_io ?s" "reader_file ?r = ?s" "required_alignment ?s = 2 ^ 9" "(9 :: nat) < 64"
      "unat (offset ?r) + unat (200 :: size_t) + unat (required_alignment ?s) \<le> 2 ^ 64"
    by (simp_all add: new_source_def)
  have v: "TruncateToPageBoundary 512 (500 :: size_t) = 0" "Roundup 700 512 = 1024"
    by (simp_all add: TruncateToPageBoundary_def Roundup_def)
  from aligned_range_covers_request [OF h, of "[]"]
  obtain aligned_offset sz where
    "calls (reader_file (snd (snd (SequentialFileReader_Read source_ops 200 [] ?r))))
        = calls ?s @ [PositionedReadCall aligned_offset sz]"
    "aligned_offset = TruncateToPageBoundary (required_alignment ?s) (offset ?r)"
    "sz = Roundup (offset ?r + 200) (required_alignment ?s) - aligned_offset"
    by (elim exE conjE)
  then show ?thesis
    by (intro exI [of _ aligned_offset] exI [of _ sz] conjI) (simp_all add: new_source_def v)
qed

text \<open>
  The claim as stated fails where the 64-bit sum \<open>offset + n\<close> wraps: at offset 1 with
  alignment \<open>512 = 2^9\<close>, \<open>Read(2^64 - 1)\<close> computes the empty range at 0.
\<close>

theorem aligned_range_counterexample:
  "(512 :: size_t) = 2 ^ 9
   \<and> calls (reader_file (snd (snd (SequentialFileReader_Read source_ops 18446744073709551615 []
          \<lparr>reader_file = (new_source [] 512)\<lparr>direct_io := True\<rparr>, offset = 1\<rparr>))))
        = [PositionedReadCall 0 0]
   \<and> \<not> (unat (1 :: size_t) + unat (18446744073709551615 :: size_t)
          \<le> unat (0 :: size_t) + unat (0 :: size_t))"
  by (simp add: SequentialFileReader_Read_def Let_def source_ops_def source_PositionedRead_def
      new_source_def logged_def failing_def TruncateToPageBoundary_def Roundup_def
      split: prod.splits)

subsection \<open>Falling through to the wrapped file\<close>

lemmas decorator_simps = ReadaheadSequentialFile_Read_def ReadaheadSequentialFile_Skip_def
  ReadaheadSequentialFile_InvalidateCache_def TryReadFromCache_def ReadIntoBuffer_def Let_def

lemma TryReadFromCache_miss:
  assumes "read_offset st < buffer_offset st
         \<or> buffer_offset st + CurrentSize (buffer st) \<le> read_offset st"
  shows "TryReadFromCache n st = (False, 0, [], st)"
  using assms by (simp add: TryReadFromCache_def)

lemma TryReadFromCache_hit:
  assumes "\<not> read_offset st < buffer_offset st"
    and "\<not> buffer_offset st + CurrentSize (buffer st) \<le> read_offset st"
  shows "TryReadFromCache n st =
     (True, min (CurrentSize (buffer st) - (read_offset st - buffer_offset st)) n,
      take (unat (min (CurrentSize (buffer st) - (read_offset st - buffer_offset st)) n))
        (drop (unat (read_offset st - buffer_offset st)) (bufstart (buffer st))),
      st\<lparr>read_offset := read_offset st
          + min (CurrentSize (buffer st) - (read_offset st - buffer_offset st)) n\<rparr>)"
  using assms by (simp add: TryReadFromCache_def Let_def)

lemma TryReadFromCache_state:
  assumes "TryReadFromCache n st = (hit, cached_len, cached, st1)"
  shows "st1 = st\<lparr>read_offset := read_offset st + cached_len\<rparr>"
  using assms by (auto simp: TryReadFromCache_def Let_def split: if_splits)

lemma Read_served:
  assumes "TryReadFromCache n st = (hit, cached_len, cached, st1)"
    and "hit \<and> (cached_len = n \<or> CurrentSize (buffer st1) < readahead_size st1)"
  shows "ReadaheadSequentialFile_Read ops n result st = (OK, cached, st1)"
  using assms by (simp add: ReadaheadSequentialFile_Read_def)

lemma Read_bypass:
  assumes "TryReadFromCache n st = (hit, cached_len, cached, st1)"
    and "\<not> (hit \<and> (cached_len = n \<or> CurrentSize (buffer st1) < readahead_size st1))"
    and "readahead_size st1 \<le> n - cached_len + alignment st1"
    and "Read ops (n - cached_len) result (ra_file st1) = (s, res, f)"
  shows "ReadaheadSequentialFile_Read ops n result st =
     (if ok s
      then (s, cached @ res,
            st1\<lparr>ra_file := f, read_offset := read_offset st1 + word_of_nat (length res),
                buffer := Clear (buffer st1)\<rparr>)
      else (s, res, st1\<lparr>ra_file := f, buffer := Clear (buffer st1)\<rparr>))"
  using assms by (cases hit) (auto simp add: ReadaheadSequentialFile_Read_def Let_def)

lemma Read_refill:
  assumes "TryReadFromCache n st = (hit, cached_len, cached, st1)"
    and "\<not> (hit \<and> (cached_len = n \<or> CurrentSize (buffer st1) < readahead_size st1))"
    and "\<not> readahead_size st1 \<le> n - cached_len + alignment st1"
    and "ReadIntoBuffer ops (readahead_size st1) st1 = (s, st2)"
  shows "ReadaheadSequentialFile_Read ops n result st =
     (if ok s
      then (s, cached @ fst (snd (snd (TryReadFromCache (n - cached_len) st2))),
            snd (snd (snd (TryReadFromCache (n - cached_len) st2))))
      else (s, result, st2))"
  using assms
  by (cases hit) (auto simp add: ReadaheadSequentialFile_Read_def Let_def split: prod.splits)

text \<open>
  Claim C10. A \<open>Read\<close> that takes the bypass path (no cache hit that ends the call, and
  the remaining need plus the alignment reaches the readahead size) returns the status of
  the read it forwards to the wrapped file, and the buffer is empty when it returns. A
  \<open>Skip\<close> that forwards a residual to the wrapped file (the buffer is empty and the skip
  is not zero, or the skip reaches the end of the buffer and leaves a residual) leaves the
  buffer empty as well. Both hold for every wrapped file, so also when its call fails.
\<close>

theorem fall_through_clears_buffer:
  "(TryReadFromCache n st = (hit, cached_len, cached, st1)
      \<and> \<not> (hit \<and> (cached_len = n \<or> CurrentSize (buffer st1) < readahead_size st1))
      \<and> readahead_size st1 \<le> n - cached_len + alignment st1
    \<longrightarrow> fst (ReadaheadSequentialFile_Read ops n result st)
          = fst (Read ops (n - cached_len) result (ra_file st))
      \<and> CurrentSize (buffer (snd (snd (ReadaheadSequentialFile_Read ops n result st)))) = 0)
   \<and> ((if 0 < CurrentSize (buffer st)
        then buffer_offset st + CurrentSize (buffer st) \<le> read_offset st + k
           \<and> 0 < k - (buffer_offset st + CurrentSize (buffer st) - read_offset st)
        else 0 < k)
    \<longrightarrow> CurrentSize (buffer (snd (ReadaheadSequentialFile_Skip ops k st))) = 0)"
proof (intro conjI impI)
  assume h: "TryReadFromCache n st = (hit, cached_len, cached, st1)
      \<and> \<not> (hit \<and> (cached_len = n \<or> CurrentSize (buffer st1) < readahead_size st1))
      \<and> readahead_size st1 \<le> n - cached_len + alignment st1"
  have f: "ra_file st1 = ra_file st"
    using TryReadFromCache_state [of n st hit cached_len cached st1] h by simp
  obtain s res f' where w: "Read ops (n - cached_len) result (ra_file st1) = (s, res, f')"
    by (cases "Read ops (n - cached_len) result (ra_file st1)") auto
  note r = Read_bypass [OF conjunct1 [OF h] conjunct1 [OF conjunct2 [OF h]]
      conjunct2 [OF conjunct2 [OF h]] w]
  show "fst (ReadaheadSequentialFile_Read ops n result st)
          = fst (Read ops (n - cached_len) result (ra_file st))"
    using w unfolding r f by simp
  show "CurrentSize (buffer (snd (snd (ReadaheadSequentialFile_Read ops n result st)))) = 0"
    unfolding r by (simp add: CurrentSize_def Clear_def)
next
  assume "if 0 < CurrentSize (buffer st)
        then buffer_offset st + CurrentSize (buffer st) \<le> read_offset st + k
           \<and> 0 < k - (buffer_offset st + CurrentSize (buffer st) - read_offset st)
        else 0 < k"
  then show "CurrentSize (buffer (snd (ReadaheadSequentialFile_Skip ops k st))) = 0"
    by (simp add: ReadaheadSequentialFile_Skip_def CurrentSize_def Clear_def Let_def
        split: prod.splits if_splits)
qed

text \<open>
  A file of twelve bytes with alignment 4 under a decorator of readahead size 8, after
  \<open>Read(2)\<close> has filled the buffer with the bytes \<open>[0,8)\<close>; the next call on the file
  fails. \<open>Read(12)\<close> takes the six cached bytes and the bypass path, \<open>Skip(10)\<close> forwards
  a residual of 4: both return the error with the buffer empty.
\<close>

theorem fall_through_clears_buffer_witness:
  "snd (run source_ops [ReadReq 2]
      (new_ReadaheadSequentialFile source_ops
         ((new_source [1, 2, 3, 4, 5, 6, 7, 8, 9, 10, 11, 12] 4)\<lparr>faults := [False, True]\<rparr>) 7))
    = \<lparr>ra_file = \<lparr>contents = [1, 2, 3, 4, 5, 6, 7, 8, 9, 10, 11, 12], pos = 8,
           required_alignment = 4, direct_io = False, faults = [True],
           calls = [ReadCall 8 0]\<rparr>,
        alignment = 4, readahead_size = 8,
        buffer = \<lparr>buf_alignment = 4, capacity = 8, cursize = 8,
           bufstart = [1, 2, 3, 4, 5, 6, 7, 8]\<rparr>,
        buffer_offset = 0, read_offset = 2\<rparr>
   \<and> fst (ReadaheadSequentialFile_Read source_ops 12 []
        \<lparr>ra_file = \<lparr>contents = [1, 2, 3, 4, 5, 6, 7, 8, 9, 10, 11, 12], pos = 8,
           required_alignment = 4, direct_io = False, faults = [True],
           calls = [ReadCall 8 0]\<rparr>,
        alignment = 4, readahead_size = 8,
        buffer = \<lparr>buf_alignment = 4, capacity = 8, cursize = 8,
           bufstart = [1, 2, 3, 4, 5, 6, 7, 8]\<rparr>,
        buffer_offset = 0, read_offset = 2\<rparr>) = IOError ''read''
   \<and> CurrentSize (buffer (snd (snd (ReadaheadSequentialFile_Read source_ops 12 []
        \<lparr>ra_file = \<lparr>contents = [1, 2, 3, 4, 5, 6, 7, 8, 9, 10, 11, 12], pos = 8,
           required_alignment = 4, direct_io = False, faults = [True],
           calls = [ReadCall 8 0]\<rparr>,
        alignment = 4, readahead_size = 8,
        buffer = \<lparr>buf_alignment = 4, capacity = 8, cursize = 8,
           bufstart = [1, 2, 3, 4, 5, 6, 7, 8]\<rparr>,
        buffer_offset = 0, read_offset = 2\<rparr>)))) = 0
   \<and> fst (ReadaheadSequentialFile_Skip source_ops 10
        \<lparr>ra_file = \<lparr>contents = [1, 2, 3, 4, 5, 6, 7, 8, 9, 10, 11, 12], pos = 8,
           required_alignment = 4, direct_io = False, faults = [True],
           calls = [ReadCall 8 0]\<rparr>,
        alignment = 4, readahead_size = 8,
        buffer = \<lparr>buf_alignment = 4, capacity = 8, cursize = 8,
           bufstart = [1, 2, 3, 4, 5, 6, 7, 8]\<rparr>,
        buffer_offset = 0, read_offset = 2\<rparr>) = IOError ''skip''
   \<and> CurrentSize (buffer (snd (ReadaheadSequentialFile_Skip source_ops 10
        \<lparr>ra_file = \<lparr>contents = [1, 2, 3, 4, 5, 6, 7, 8, 9, 10, 11, 12], pos = 8,
           required_alignment = 4, direct_io = False, faults = [True],
           calls = [ReadCall 8 0]\<rparr>,
        alignment = 4, readahead_size = 8,
        buffer = \<lparr>buf_alignment = 4, capacity = 8, cursize = 8,
           bufstart = [1, 2, 3, 4, 5, 6, 7, 8]\<rparr>,
        buffer_offset = 0, read_offset = 2\<rparr>))) = 0"
  (is "?reach \<and> ?rs \<and> ?rb \<and> ?ss \<and> ?sb")
proof -
  let ?f = "\<lparr>contents = [1, 2, 3, 4, 5, 6, 7, 8, 9, 10, 11, 12], pos = 8,
           required_alignment = 4, direct_io = False, faults = [True],
           calls = [ReadCall 8 0]\<rparr>"
  let ?d = "\<lparr>ra_file = ?f, alignment = 4, readahead_size = 8,
        buffer = \<lparr>buf_alignment = 4, capacity = 8, cursize = 8,
           bufstart = [1, 2, 3, 4, 5, 6, 7, 8]\<rparr>,
        buffer_offset = 0, read_offset = 2\<rparr>"
  have reach: ?reach
    by (simp add: new_ReadaheadSequentialFile_def decorator_simps source_simps buffer_simps
        Roundup_def)
  have hit: "TryReadFromCache 12 ?d = (True, 6, [3, 4, 5, 6, 7, 8], ?d\<lparr>read_offset := 8\<rparr>)"
    by (simp add: TryReadFromCache_def Let_def buffer_simps)
  have path: "\<not> (True \<and> ((6 :: size_t) = 12
        \<or> CurrentSize (buffer (?d\<lparr>read_offset := 8\<rparr>)) < readahead_size (?d\<lparr>read_offset := 8\<rparr>)))"
    by (simp add: buffer_simps)
  have big: "readahead_size (?d\<lparr>read_offset := 8\<rparr>) \<le> 12 - 6 + alignment (?d\<lparr>read_offset := 8\<rparr>)"
    by simp
  have residual: "if 0 < CurrentSize (buffer ?d)
        then buffer_offset ?d + CurrentSize (buffer ?d) \<le> read_offset ?d + 10
           \<and> 0 < 10 - (buffer_offset ?d + CurrentSize (buffer ?d) - read_offset ?d)
        else 0 < (10 :: uint64_t)"
    by (simp add: buffer_simps)
  note c10 = fall_through_clears_buffer [of 12 ?d True 6 "[3, 4, 5, 6, 7, 8]"
      "?d\<lparr>read_offset := 8\<rparr>" source_ops "[]" 10]
  note r = mp [OF conjunct1 [OF c10] conjI [OF hit conjI [OF path big]]]
  have wrapped: "fst (Read source_ops (12 - 6) [] (ra_file ?d)) = IOError ''read''"
    by (simp add: source_simps)
  have rs: ?rs
    using conjunct1 [OF r] wrapped by simp
  have rb: ?rb
    by (rule conjunct2 [OF r])
  have sb: ?sb
    by (rule mp [OF conjunct2 [OF c10] residual])
  have ss: ?ss
    by (simp add: ReadaheadSequentialFile_Skip_def Let_def source_simps buffer_simps)
  from reach rs rb ss sb show ?thesis
    by (intro conjI)
qed

subsection \<open>Reads after a partial fill\<close>

text \<open>
  Claim C4, as amended. While the buffer holds fewer valid bytes than the readahead size
  (the last fill was partial) and the cursor lies inside the buffered range, a \<open>Read\<close>
  returns the cached bytes from the cursor on, at most \<open>n\<close> of them, with status OK; it
  moves the cursor by that many bytes and leaves the buffer and the wrapped file as they
  were, whatever the wrapped file is: no call reaches it.
\<close>

theorem partial_fill_served_from_cache:
  assumes "CurrentSize (buffer st) < readahead_size st"
    and "buffer_offset st \<le> read_offset st"
    and "read_offset st < buffer_offset st + CurrentSize (buffer st)"
  shows "ReadaheadSequentialFile_Read ops n result st =
     (OK,
      take (unat (min (CurrentSize (buffer st) - (read_offset st - buffer_offset st)) n))
        (drop (unat (read_offset st - buffer_offset st)) (bufstart (buffer st))),
      st\<lparr>read_offset := read_offset st
          + min (CurrentSize (buffer st) - (read_offset st - buffer_offset st)) n\<rparr>)"
proof -
  have a: "\<not> read_offset st < buffer_offset st"
    using assms(2) by simp
  have b: "\<not> buffer_offset st + CurrentSize (buffer st) \<le> read_offset st"
    using assms(3) by simp
  show ?thesis
    by (rule Read_served [OF TryReadFromCache_hit [OF a b]]) (simp add: assms(1))
qed

text \<open>
  A file of five bytes with alignment 4 under a decorator of readahead size 8, after
  \<open>Read(2)\<close>: the fill returned five bytes, the cursor is at 2. \<open>Read(10)\<close> returns the
  three bytes left and the call log of the file still holds the one fill.
\<close>

theorem partial_fill_served_from_cache_witness:
  "snd (run source_ops [ReadReq 2]
      (new_ReadaheadSequentialFile source_ops (new_source [1, 2, 3, 4, 5] 4) 7))
    = \<lparr>ra_file = \<lparr>contents = [1, 2, 3, 4, 5], pos = 5, required_alignment = 4,
           direct_io = False, faults = [], calls = [ReadCall 8 0]\<rparr>,
        alignment = 4, readahead_size = 8,
        buffer = \<lparr>buf_alignment = 4, capacity = 8, cursize = 5, bufstart = [1, 2, 3, 4, 5]\<rparr>,
        buffer_offset = 0, read_offset = 2\<rparr>
   \<and> ReadaheadSequentialFile_Read source_ops 10 []
        \<lparr>ra_file = \<lparr>contents = [1, 2, 3, 4, 5], pos = 5, required_alignment = 4,
           direct_io = False, faults = [], calls = [ReadCall 8 0]\<rparr>,
        alignment = 4, readahead_size = 8,
        buffer = \<lparr>buf_alignment = 4, capacity = 8, cursize = 5, bufstart = [1, 2, 3, 4, 5]\<rparr>,
        buffer_offset = 0, read_offset = 2\<rparr>
     = (OK, [3, 4, 5],
        \<lparr>ra_file = \<lparr>contents = [1, 2, 3, 4, 5], pos = 5, required_alignment = 4,
           direct_io = False, faults = [], calls = [ReadCall 8 0]\<rparr>,
        alignment = 4, readahead_size = 8,
        buffer = \<lparr>buf_alignment = 4, capacity = 8, cursize = 5, bufstart = [1, 2, 3, 4, 5]\<rparr>,
        buffer_offset = 0, read_offset = 5\<rparr>)"
  (is "?reach \<and> ?served")
proof -
  let ?d = "\<lparr>ra_file = \<lparr>contents = [1, 2, 3, 4, 5], pos = 5, required_alignment = 4,
           direct_io = False, faults = [], calls = [ReadCall 8 0]\<rparr>,
        alignment = 4, readahead_size = 8,
        buffer = \<lparr>buf_alignment = 4, capacity = 8, cursize = 5, bufstart = [1, 2, 3, 4, 5]\<rparr>,
        buffer_offset = 0, read_offset = 2\<rparr>"
  have reach: ?reach
    by (simp add: new_ReadaheadSequentialFile_def decorator_simps source_simps buffer_simps
        Roundup_def)
  have h: "CurrentSize (buffer ?d) < readahead_size ?d" "buffer_offset ?d \<le> read_offset ?d"
      "read_offset ?d < buffer_offset ?d + CurrentSize (buffer ?d)"
    by (simp_all add: buffer_simps)
  have served: ?served
    using partial_fill_served_from_cache [OF h, of source_ops 10 "[]"]
    by (simp add: buffer_simps)
  from reach served show ?thesis
    by (rule conjI)
qed

text \<open>
  The claim as stated fails once the cached bytes are used up. Over the same file,
  \<open>Read(2)\<close> fills the buffer with five of the eight bytes asked for, \<open>Read(3)\<close> takes the
  rest of them, and \<open>Read(1)\<close> misses the cache and fills the buffer again: the file logs
  a second read of 8 bytes, at position 5, with no invalidation in between.
\<close>

theorem partial_fill_refill_counterexample:
  "CurrentSize (buffer (snd (run source_ops [ReadReq 2]
      (new_ReadaheadSequentialFile source_ops (new_source [1, 2, 3, 4, 5] 4) 7)))) = 5
   \<and> run source_ops [ReadReq 2, ReadReq 3, ReadReq 1]
      (new_ReadaheadSequentialFile source_ops (new_source [1, 2, 3, 4, 5] 4) 7)
    = ([(OK, [1, 2]), (OK, [3, 4, 5]), (OK, [])],
       \<lparr>ra_file = \<lparr>contents = [1, 2, 3, 4, 5], pos = 5, required_alignment = 4,
           direct_io = False, faults = [], calls = [ReadCall 8 0, ReadCall 8 5]\<rparr>,
        alignment = 4, readahead_size = 8,
        buffer = \<lparr>buf_alignment = 4, capacity = 8, cursize = 0, bufstart = [1, 2, 3, 4, 5]\<rparr>,
        buffer_offset = 5, read_offset = 5\<rparr>)"
  by (simp add: new_ReadaheadSequentialFile_def decorator_simps source_simps buffer_simps
      Roundup_def)

subsection \<open>A failing read of the wrapped file\<close>




subsection \<open>64-bit arithmetic of a cache hit\<close>

lemma unat_bound64: "unat (w :: 64 word) < 18446744073709551616"
  using unsigned_less [of w, where 'a = nat] by simp

lemma unat_add64:
  "unat (a + b :: 64 word) =
     (if unat a + unat b < 18446744073709551616 then unat a + unat b
      else unat a + unat b - 18446744073709551616)"
  using unat_plus_if' [of a b] by simp

lemma unat_add64_fits:
  "unat a + unat b < 18446744073709551616 \<Longrightarrow> unat (a + b :: 64 word) = unat a + unat b"
  by (simp add: unat_add64)

lemma hit_no_overflow:
  fixes ro bo cs :: "64 word"
  assumes "\<not> ro < bo" and "\<not> bo + cs \<le> ro"
  shows "unat bo \<le> unat ro" and "unat ro < unat bo + unat cs"
    and "unat bo + unat cs < 18446744073709551616"
proof -
  show a: "unat bo \<le> unat ro"
    using assms(1) by (simp add: word_less_nat_alt)
  have b: "unat ro < unat (bo + cs)"
    using assms(2) by (simp add: word_le_nat_alt)
  have c: "unat cs < 18446744073709551616"
    by (rule unat_bound64)
  have "unat bo + unat cs < 18446744073709551616 \<and> unat ro < unat bo + unat cs"
  proof (cases "unat bo + unat cs < 18446744073709551616")
    case True
    with b show ?thesis by (simp add: unat_add64)
  next
    case False
    with b have "unat ro < unat bo + unat cs - 18446744073709551616"
      by (simp add: unat_add64)
    with a c show ?thesis by linarith
  qed
  then show "unat ro < unat bo + unat cs" and "unat bo + unat cs < 18446744073709551616"
    by simp_all
qed

lemma hit_len:
  fixes ro bo cs n :: "64 word"
  assumes "\<not> ro < bo" and "\<not> bo + cs \<le> ro"
  shows "unat (ro - bo) = unat ro - unat bo"
    and "unat (min (cs - (ro - bo)) n) = min (unat bo + unat cs - unat ro) (unat n)"
    and "unat (ro + min (cs - (ro - bo)) n) = unat ro + min (unat bo + unat cs - unat ro) (unat n)"
proof -
  note h = hit_no_overflow [OF assms]
  have "bo \<le> ro"
    using h by (simp add: word_le_nat_alt)
  then show d: "unat (ro - bo) = unat ro - unat bo"
    by (rule unat_sub)
  have "unat (ro - bo) \<le> unat cs"
    using h d by linarith
  then have "ro - bo \<le> cs"
    by (simp add: word_le_nat_alt)
  then have "unat (cs - (ro - bo)) = unat cs - (unat ro - unat bo)"
    by (simp add: unat_sub d)
  also have "\<dots> = unat bo + unat cs - unat ro"
    using h by linarith
  finally have e: "unat (cs - (ro - bo)) = unat bo + unat cs - unat ro" .
  show m: "unat (min (cs - (ro - bo)) n) = min (unat bo + unat cs - unat ro) (unat n)"
    by (simp add: unat_min e)
  have "unat ro + unat (min (cs - (ro - bo)) n) < 18446744073709551616"
    unfolding m using h by linarith
  then show "unat (ro + min (cs - (ro - bo)) n)
      = unat ro + min (unat bo + unat cs - unat ro) (unat n)"
    by (simp add: unat_add64_fits m)
qed


lemma TryReadFromCache_cursor:
  assumes t: "TryReadFromCache n st = (hit, cached_len, cached, st1)"
  shows "st1 = st\<lparr>read_offset := read_offset st + cached_len\<rparr>"
    and "unat (read_offset st1) = unat (read_offset st) + unat cached_len"
    and "unat cached_len \<le> unat n"
    and "hit \<Longrightarrow> cursor_in_reach st1 \<and> cursize (buffer st) \<noteq> 0"
    and "\<not> hit \<Longrightarrow> cached_len = 0 \<and> cached = [] \<and> st1 = st"
proof -
  show s: "st1 = st\<lparr>read_offset := read_offset st + cached_len\<rparr>"
    by (rule TryReadFromCache_state [OF t])
  show "\<not> hit \<Longrightarrow> cached_len = 0 \<and> cached = [] \<and> st1 = st"
    using t by (auto simp: TryReadFromCache_def Let_def split: if_splits)
  show "unat (read_offset st1) = unat (read_offset st) + unat cached_len"
    and "unat cached_len \<le> unat n"
    and "hit \<Longrightarrow> cursor_in_reach st1 \<and> cursize (buffer st) \<noteq> 0"
  proof -
    consider (miss) "read_offset st < buffer_offset st
         \<or> buffer_offset st + CurrentSize (buffer st) \<le> read_offset st"
      | (hit) "\<not> read_offset st < buffer_offset st"
          "\<not> buffer_offset st + CurrentSize (buffer st) \<le> read_offset st"
      by blast
    then have "unat (read_offset st1) = unat (read_offset st) + unat cached_len
        \<and> unat cached_len \<le> unat n
        \<and> (hit \<longrightarrow> cursor_in_reach st1 \<and> cursize (buffer st) \<noteq> 0)"
    proof cases
      case miss
      from t show ?thesis
        unfolding TryReadFromCache_miss [OF miss] by auto
    next
      case hit
      note r = TryReadFromCache_hit [OF hit, of n]
      note b = hit_no_overflow [OF hit, unfolded CurrentSize_def]
      note l = hit_len [OF hit, unfolded CurrentSize_def]
      from t have cl: "cached_len = min (CurrentSize (buffer st)
            - (read_offset st - buffer_offset st)) n"
        and st1: "st1 = st\<lparr>read_offset := read_offset st + min (CurrentSize (buffer st)
            - (read_offset st - buffer_offset st)) n\<rparr>"
        unfolding r by auto
      have nonempty: "cursize (buffer st) \<noteq> 0"
      proof
        assume "cursize (buffer st) = 0"
        with b show False by (auto simp add: CurrentSize_def)
      qed
      have "unat (read_offset st1) \<le> unat (buffer_offset st1) + unat (cursize (buffer st1))"
        unfolding st1 using b by (simp add: CurrentSize_def l(3))
      moreover have "unat (buffer_offset st1) + unat (cursize (buffer st1)) < 2 ^ 64"
        unfolding st1 using b by (simp add: CurrentSize_def)
      ultimately have "cursor_in_reach st1"
        unfolding cursor_in_reach_def by blast
      with nonempty show ?thesis
        unfolding cl using l(2,3) by (simp add: st1 CurrentSize_def)
    qed
    then show "unat (read_offset st1) = unat (read_offset st) + unat cached_len"
      and "unat cached_len \<le> unat n"
      and "hit \<Longrightarrow> cursor_in_reach st1 \<and> cursize (buffer st) \<noteq> 0"
      by blast+
  qed
qed

lemma unat_word_of_nat64: "k < 18446744073709551616 \<Longrightarrow> unat (word_of_nat k :: 64 word) = k"
  by (simp add: unat_of_nat)

lemma ReadIntoBuffer_cases:
  assumes w: "Read ops (if Capacity (buffer st) < n then Capacity (buffer st) else n) []
      (ra_file st) = (s, res, f)"
  shows "ReadIntoBuffer ops n st =
     (if ok s
      then (s, st\<lparr>ra_file := f, buffer_offset := read_offset st,
                   buffer := Size (word_of_nat (length res)) (store res (buffer st))\<rparr>)
      else (s, st\<lparr>ra_file := f\<rparr>))"
  using w by (simp add: ReadIntoBuffer_def Let_def)

lemma Read_cursor:
  assumes wb: "\<And>n result f. ok (fst (Read ops n result f))
        \<Longrightarrow> length (fst (snd (Read ops n result f))) \<le> unat n"
    and inv: "cursor_in_reach st"
    and fits: "unat (read_offset st) + unat n + unat (readahead_size st) < 2 ^ 64"
  shows "unat (read_offset st)
        \<le> unat (read_offset (snd (snd (ReadaheadSequentialFile_Read ops n result st))))
     \<and> unat (read_offset (snd (snd (ReadaheadSequentialFile_Read ops n result st))))
        \<le> unat (read_offset st) + unat n
     \<and> cursor_in_reach (snd (snd (ReadaheadSequentialFile_Read ops n result st)))
     \<and> readahead_size (snd (snd (ReadaheadSequentialFile_Read ops n result st)))
        = readahead_size st"
  (is "?P (snd (snd (ReadaheadSequentialFile_Read ops n result st)))")
proof -
  obtain hit cl cached st1 where t: "TryReadFromCache n st = (hit, cl, cached, st1)"
    by (cases "TryReadFromCache n st") auto
  note c = TryReadFromCache_cursor [OF t]
  have inv1: "cursor_in_reach st1"
    using c(4,5) inv by (cases hit) auto
  have ra1: "readahead_size st1 = readahead_size st"
    by (simp add: c(1))
  have f64: "unat (read_offset st) + unat n + unat (readahead_size st) < 18446744073709551616"
    using fits by simp
  have p1: "?P st1"
    using c(2,3) inv1 ra1 by simp
  have "cl \<le> n"
    using c(3) by (simp add: word_le_nat_alt)
  then have n1: "unat (n - cl) = unat n - unat cl"
    by (rule unat_sub)
  consider (served) "hit \<and> (cl = n \<or> CurrentSize (buffer st1) < readahead_size st1)"
    | (bypass) "\<not> (hit \<and> (cl = n \<or> CurrentSize (buffer st1) < readahead_size st1))"
        "readahead_size st1 \<le> n - cl + alignment st1"
    | (refill) "\<not> (hit \<and> (cl = n \<or> CurrentSize (buffer st1) < readahead_size st1))"
        "\<not> readahead_size st1 \<le> n - cl + alignment st1"
    by blast
  then show ?thesis
  proof cases
    case served
    show ?thesis
      unfolding Read_served [OF t served] using p1 by simp
  next
    case bypass
    obtain s res f where w: "Read ops (n - cl) result (ra_file st1) = (s, res, f)"
      by (cases "Read ops (n - cl) result (ra_file st1)") auto
    show ?thesis
    proof (cases "ok s")
      case False
      then show ?thesis
        unfolding Read_bypass [OF t bypass w] using p1
        by (simp add: cursor_in_reach_def Clear_def)
    next
      case True
      have len: "length res \<le> unat n - unat cl"
        using wb [of "n - cl" result "ra_file st1"] True unfolding w n1 by simp
      then have "length res < 18446744073709551616"
        using f64 by linarith
      then have u: "unat (word_of_nat (length res) :: 64 word) = length res"
        by (rule unat_word_of_nat64)
      have "unat (read_offset st1) + unat (word_of_nat (length res) :: 64 word)
          < 18446744073709551616"
        unfolding u c(2) using len c(3) f64 by linarith
      then have adv: "unat (read_offset st1 + word_of_nat (length res))
          = unat (read_offset st1) + length res"
        by (simp add: unat_add64_fits u)
      show ?thesis
        unfolding Read_bypass [OF t bypass w]
        using adv c(2,3) len ra1
        by (auto simp add: cursor_in_reach_def Clear_def)
    qed
  next
    case refill
    obtain s res f where w: "Read ops
        (if Capacity (buffer st1) < readahead_size st1 then Capacity (buffer st1)
         else readahead_size st1) [] (ra_file st1) = (s, res, f)"
      by (cases "Read ops
        (if Capacity (buffer st1) < readahead_size st1 then Capacity (buffer st1)
         else readahead_size st1) [] (ra_file st1)") auto
    note fill = ReadIntoBuffer_cases [OF w]
    show ?thesis
    proof (cases "ok s")
      case False
      then have fill': "ReadIntoBuffer ops (readahead_size st1) st1 = (s, st1\<lparr>ra_file := f\<rparr>)"
        using fill by simp
      show ?thesis
        unfolding Read_refill [OF t refill fill'] using p1 False
        by (simp add: cursor_in_reach_def)
    next
      case True
      let ?st2 = "st1\<lparr>ra_file := f, buffer_offset := read_offset st1,
          buffer := Size (word_of_nat (length res)) (store res (buffer st1))\<rparr>"
      define nf where "nf = (if Capacity (buffer st1) < readahead_size st1
          then Capacity (buffer st1) else readahead_size st1)"
      have "unat nf \<le> unat (readahead_size st1)"
        unfolding nf_def by (simp add: word_less_nat_alt)
      moreover have "length res \<le> unat nf"
        using wb [of nf "[]" "ra_file st1"] w True unfolding nf_def by simp
      ultimately have len: "length res \<le> unat (readahead_size st)"
        unfolding ra1 by linarith
      then have "length res < 18446744073709551616"
        using f64 by linarith
      then have u: "unat (word_of_nat (length res) :: 64 word) = length res"
        by (rule unat_word_of_nat64)
      have inv2: "cursor_in_reach ?st2"
        using len f64 c(2,3) by (simp add: cursor_in_reach_def Size_def store_def u)
      obtain hit2 cl2 rest st3 where
        t2: "TryReadFromCache (n - cl) ?st2 = (hit2, cl2, rest, st3)"
        by (cases "TryReadFromCache (n - cl) ?st2") auto
      note c2 = TryReadFromCache_cursor [OF t2]
      have inv3: "cursor_in_reach st3"
        using c2(4,5) inv2 by (cases hit2) auto
      have "?P st3"
        using c2(2,3) c(2,3) n1 inv3 ra1 by (simp add: c2(1))
      moreover have fill': "ReadIntoBuffer ops (readahead_size st1) st1 = (s, ?st2)"
        using fill True by simp
      ultimately show ?thesis
        unfolding Read_refill [OF t refill fill'] using True by (simp add: t2)
    qed
  qed
qed

lemma Skip_cases:
  "ReadaheadSequentialFile_Skip ops k st =
     (if cursize (buffer st) = 0 then
        (if k = 0 then (OK, st)
         else (fst (Skip ops k (ra_file st)),
               (if ok (fst (Skip ops k (ra_file st)))
                then st\<lparr>read_offset := read_offset st + k\<rparr> else st)
               \<lparr>ra_file := snd (Skip ops k (ra_file st)), buffer := Clear (buffer st)\<rparr>))
      else if buffer_offset st + cursize (buffer st) \<le> read_offset st + k then
        (let n1 = k - (buffer_offset st + cursize (buffer st) - read_offset st);
             st1 = st\<lparr>read_offset := buffer_offset st + cursize (buffer st)\<rparr>
         in if n1 = 0 then (OK, st1)
            else (fst (Skip ops n1 (ra_file st)),
                  (if ok (fst (Skip ops n1 (ra_file st)))
                   then st1\<lparr>read_offset := read_offset st1 + n1\<rparr> else st1)
                  \<lparr>ra_file := snd (Skip ops n1 (ra_file st)), buffer := Clear (buffer st)\<rparr>))
      else (OK, st\<lparr>read_offset := read_offset st + k\<rparr>))"
  by (simp add: ReadaheadSequentialFile_Skip_def CurrentSize_def Let_def word_gt_0
      split: prod.splits)

lemma Skip_cursor:
  assumes inv: "cursor_in_reach st"
    and fits: "unat (read_offset st) + unat k < 2 ^ 64"
  shows "unat (read_offset st) \<le> unat (read_offset (snd (ReadaheadSequentialFile_Skip ops k st)))
     \<and> unat (read_offset (snd (ReadaheadSequentialFile_Skip ops k st)))
        \<le> unat (read_offset st) + unat k
     \<and> cursor_in_reach (snd (ReadaheadSequentialFile_Skip ops k st))
     \<and> readahead_size (snd (ReadaheadSequentialFile_Skip ops k st)) = readahead_size st"
proof -
  have f64: "unat (read_offset st) + unat k < 18446744073709551616"
    using fits by simp
  then have rk: "unat (read_offset st + k) = unat (read_offset st) + unat k"
    by (rule unat_add64_fits)
  show ?thesis
  proof (cases "cursize (buffer st) = 0")
    case True
    then show ?thesis
      unfolding Skip_cases using rk by (simp add: cursor_in_reach_def Clear_def)
  next
    case False
    with inv have reach: "unat (read_offset st)
          \<le> unat (buffer_offset st) + unat (cursize (buffer st))"
      and e64: "unat (buffer_offset st) + unat (cursize (buffer st)) < 18446744073709551616"
      by (simp_all add: cursor_in_reach_def)
    have be: "unat (buffer_offset st + cursize (buffer st))
        = unat (buffer_offset st) + unat (cursize (buffer st))"
      using e64 by (rule unat_add64_fits)
    show ?thesis
    proof (cases "buffer_offset st + cursize (buffer st) \<le> read_offset st + k")
      case beyond: True
      then have bk: "unat (buffer_offset st) + unat (cursize (buffer st))
          \<le> unat (read_offset st) + unat k"
        by (simp add: word_le_nat_alt be rk)
      have "read_offset st \<le> buffer_offset st + cursize (buffer st)"
        using reach by (simp add: word_le_nat_alt be)
      then have cons: "unat (buffer_offset st + cursize (buffer st) - read_offset st)
          = unat (buffer_offset st) + unat (cursize (buffer st)) - unat (read_offset st)"
        by (simp add: unat_sub be)
      have "buffer_offset st + cursize (buffer st) - read_offset st \<le> k"
        using bk reach by (simp add: word_le_nat_alt cons)
      then have n1: "unat (k - (buffer_offset st + cursize (buffer st) - read_offset st))
          = unat k - (unat (buffer_offset st) + unat (cursize (buffer st))
              - unat (read_offset st))"
        by (simp add: unat_sub cons)
      define e where "e = buffer_offset st + cursize (buffer st)"
      define n1 where "n1 = k - (e - read_offset st)"
      have ue: "unat e = unat (buffer_offset st) + unat (cursize (buffer st))"
        unfolding e_def by (rule be)
      have un1: "unat n1 = unat k - (unat e - unat (read_offset st))"
        unfolding n1_def e_def using n1 be by simp
      have "unat e + unat n1 < 18446744073709551616"
        unfolding un1 ue using f64 bk reach by linarith
      then have "unat (e + n1) = unat e + unat n1"
        by (rule unat_add64_fits)
      then have adv: "unat (e + n1) = unat (read_offset st) + unat k"
        unfolding un1 ue using bk reach by linarith
      have res: "ReadaheadSequentialFile_Skip ops k st =
         (if n1 = 0 then (OK, st\<lparr>read_offset := e\<rparr>)
          else (fst (Skip ops n1 (ra_file st)),
                (if ok (fst (Skip ops n1 (ra_file st)))
                 then st\<lparr>read_offset := e + n1, ra_file := snd (Skip ops n1 (ra_file st)),
                        buffer := Clear (buffer st)\<rparr>
                 else st\<lparr>read_offset := e, ra_file := snd (Skip ops n1 (ra_file st)),
                        buffer := Clear (buffer st)\<rparr>)))"
        unfolding Skip_cases Let_def e_def n1_def using False beyond by simp
      have e1: "unat (read_offset st) \<le> unat e" and e2: "unat e \<le> unat (read_offset st) + unat k"
        and e3: "unat e < 18446744073709551616"
        unfolding ue using reach bk e64 by simp_all
      have inv_e: "cursor_in_reach (st\<lparr>read_offset := e\<rparr>)"
        unfolding cursor_in_reach_def using ue e64 by simp
      show ?thesis
        unfolding res using e1 e2 adv inv_e
        by (simp add: cursor_in_reach_def Clear_def)
    next
      case within: False
      then have "unat (read_offset st) + unat k
          < unat (buffer_offset st) + unat (cursize (buffer st))"
        by (simp add: word_le_nat_alt be rk)
      then show ?thesis
        unfolding Skip_cases using False within rk e64
        by (simp add: cursor_in_reach_def)
    qed
  qed
qed

lemma Invalidate_cursor:
  "read_offset (snd (ReadaheadSequentialFile_InvalidateCache ops offs len st)) = read_offset st
   \<and> cursor_in_reach (snd (ReadaheadSequentialFile_InvalidateCache ops offs len st))
   \<and> readahead_size (snd (ReadaheadSequentialFile_InvalidateCache ops offs len st))
      = readahead_size st"
  by (simp add: ReadaheadSequentialFile_InvalidateCache_def Let_def cursor_in_reach_def Clear_def
      split: prod.splits)

lemma serve_cursor:
  assumes wb: "\<And>n result f. ok (fst (Read ops n result f))
        \<Longrightarrow> length (fst (snd (Read ops n result f))) \<le> unat n"
    and inv: "cursor_in_reach st"
    and fits: "unat (read_offset st) + requested q + unat (readahead_size st) < 2 ^ 64"
  shows "unat (read_offset st) \<le> unat (read_offset (snd (serve ops q st)))
     \<and> unat (read_offset (snd (serve ops q st))) \<le> unat (read_offset st) + requested q
     \<and> cursor_in_reach (snd (serve ops q st))
     \<and> readahead_size (snd (serve ops q st)) = readahead_size st"
proof (cases q)
  case (ReadReq n)
  have "snd (serve ops q st) = snd (snd (ReadaheadSequentialFile_Read ops n [] st))"
    unfolding ReadReq by (simp split: prod.splits)
  then show ?thesis
    using Read_cursor [OF wb inv, of n "[]"] fits unfolding ReadReq by simp
next
  case (SkipReq k)
  have "snd (serve ops q st) = snd (ReadaheadSequentialFile_Skip ops k st)"
    unfolding SkipReq by (simp split: prod.splits)
  then show ?thesis
    using Skip_cursor [OF inv, of k ops] fits unfolding SkipReq by simp
next
  case (InvalidateReq offs len)
  have "snd (serve ops q st) = snd (ReadaheadSequentialFile_InvalidateCache ops offs len st)"
    unfolding InvalidateReq by (simp split: prod.splits)
  then show ?thesis
    using Invalidate_cursor [of ops offs len st] unfolding InvalidateReq by simp
qed

lemma cursors_sorted:
  assumes wb: "\<And>n result f. ok (fst (Read ops n result f))
        \<Longrightarrow> length (fst (snd (Read ops n result f))) \<le> unat n"
  shows "cursor_in_reach st
     \<Longrightarrow> unat (read_offset st) + sum_list (map requested qs) + unat (readahead_size st) < 2 ^ 64
     \<Longrightarrow> sorted (cursors ops qs st) \<and> (\<forall>c \<in> set (cursors ops qs st). read_offset st \<le> c)"
proof (induction qs arbitrary: st)
  case Nil
  then show ?case by simp
next
  case (Cons q qs)
  let ?st = "snd (serve ops q st)"
  have fits: "unat (read_offset st) + requested q + unat (readahead_size st) < 2 ^ 64"
    using Cons.prems(2) by simp
  note step = serve_cursor [OF wb Cons.prems(1) fits]
  have "unat (read_offset ?st) + sum_list (map requested qs) + unat (readahead_size ?st) < 2 ^ 64"
    using step Cons.prems(2) by simp
  with step have ih: "sorted (cursors ops qs ?st)"
      "\<forall>c \<in> set (cursors ops qs ?st). read_offset ?st \<le> c"
    using Cons.IH [of ?st] by simp_all
  have "read_offset st \<le> read_offset ?st"
    using step by (simp add: word_le_nat_alt)
  with ih show ?case
    by auto
qed

lemma new_cursor_in_reach: "cursor_in_reach (new_ReadaheadSequentialFile ops f rs)"
  by (simp add: cursor_in_reach_def new_ReadaheadSequentialFile_def Let_def AllocateNewBuffer_def)

lemma source_reads_bounded:
  "ok (fst (Read source_ops n result f))
     \<Longrightarrow> length (fst (snd (Read source_ops n result f))) \<le> unat n"
  by (simp add: source_ops_def source_Read_def ok_def Let_def split: if_splits)

lemma reader_cursor:
  assumes "unat (offset r) + unat n < 2 ^ 64"
  shows "offset r \<le> offset (snd (snd (SequentialFileReader_Read ops n result r)))"
    and "offset r \<le> offset (snd (SequentialFileReader_Skip ops n r))"
proof -
  have "unat (offset r) + unat n < 18446744073709551616"
    using assms by simp
  then have "unat (offset r + n) = unat (offset r) + unat n"
    by (rule unat_add64_fits)
  then have le: "offset r \<le> offset r + n"
    by (simp add: word_le_nat_alt)
  show "offset r \<le> offset (snd (snd (SequentialFileReader_Read ops n result r)))"
    using le by (simp add: SequentialFileReader_Read_def Let_def split: prod.splits)
  show "offset r \<le> offset (snd (SequentialFileReader_Skip ops n r))"
    using le by (simp add: SequentialFileReader_Skip_def Let_def split: prod.splits)
qed

text \<open>
  Claim C7, as amended. Let the wrapped file return at most as many bytes as a read asks
  for. Along every run of reads, skips and invalidations on a new decorator whose
  requested lengths, added to the readahead size, stay below \<open>2^64\<close>, the values of
  \<^verbatim>\<open>read_offset_\<close> from request to request never decrease. A read or a skip of the
  direct-I/O adapter does not decrease its cursor \<^verbatim>\<open>offset_\<close> when the cursor plus the
  requested length stays below \<open>2^64\<close>.
\<close>

theorem cursors_never_decrease:
  assumes "\<And>n result f. ok (fst (Read ops n result f))
        \<Longrightarrow> length (fst (snd (Read ops n result f))) \<le> unat n"
    and "sum_list (map requested qs) + unat (Roundup rs (GetRequiredBufferAlignment ops f)) < 2 ^ 64"
    and "unat (offset r) + unat n < 2 ^ 64"
  shows "sorted (cursors ops qs (new_ReadaheadSequentialFile ops f rs))
     \<and> offset r \<le> offset (snd (snd (SequentialFileReader_Read ops n result r)))
     \<and> offset r \<le> offset (snd (SequentialFileReader_Skip ops n r))"
proof -
  let ?st = "new_ReadaheadSequentialFile ops f rs"
  have "unat (read_offset ?st) + sum_list (map requested qs) + unat (readahead_size ?st) < 2 ^ 64"
    using assms(2) by (simp add: new_ReadaheadSequentialFile_def Let_def)
  from cursors_sorted [OF assms(1) new_cursor_in_reach this]
  have "sorted (cursors ops qs ?st)"
    by simp
  with reader_cursor [OF assms(3)] show ?thesis
    by simp
qed

text \<open>
  A file of twelve bytes with alignment 4 under a decorator of readahead size 8: the
  cursor goes 0, 2, 5, 12, 12. The adapter at offset 5 reads 10 bytes and stands at 15.
\<close>

theorem cursors_never_decrease_witness:
  "sorted (cursors source_ops [ReadReq 2, SkipReq 3, ReadReq 7, ReadReq 1]
      (new_ReadaheadSequentialFile source_ops
         (new_source [1, 2, 3, 4, 5, 6, 7, 8, 9, 10, 11, 12] 4) 7))
   \<and> cursors source_ops [ReadReq 2, SkipReq 3, ReadReq 7, ReadReq 1]
      (new_ReadaheadSequentialFile source_ops
         (new_source [1, 2, 3, 4, 5, 6, 7, 8, 9, 10, 11, 12] 4) 7) = [0, 2, 5, 12, 12]
   \<and> (5 :: size_t) \<le> offset (snd (snd (SequentialFileReader_Read source_ops 10 []
        \<lparr>reader_file = (new_source [1, 2, 3, 4, 5, 6, 7, 8, 9, 10, 11, 12] 4)
            \<lparr>direct_io := True\<rparr>, offset = 5\<rparr>)))
   \<and> (5 :: size_t) \<le> offset (snd (SequentialFileReader_Skip source_ops 10
        \<lparr>reader_file = (new_source [1, 2, 3, 4, 5, 6, 7, 8, 9, 10, 11, 12] 4)
            \<lparr>direct_io := True\<rparr>, offset = 5\<rparr>))"
proof -
  let ?f = "new_source [1, 2, 3, 4, 5, 6, 7, 8, 9, 10, 11, 12] 4"
  let ?r = "\<lparr>reader_file = ?f\<lparr>direct_io := True\<rparr>, offset = 5\<rparr>"
  have a: "sum_list (map requested [ReadReq 2, SkipReq 3, ReadReq 7, ReadReq 1])
      + unat (Roundup 7 (GetRequiredBufferAlignment source_ops ?f)) < 2 ^ 64"
    by (simp add: source_ops_def new_source_def Roundup_def)
  have b: "unat (offset ?r) + unat (10 :: size_t) < 2 ^ 64"
    by simp
  note w = cursors_never_decrease [OF source_reads_bounded a b, of "[]"]
  have c: "cursors source_ops [ReadReq 2, SkipReq 3, ReadReq 7, ReadReq 1]
      (new_ReadaheadSequentialFile source_ops ?f 7) = [0, 2, 5, 12, 12]"
    by (simp add: new_ReadaheadSequentialFile_def decorator_simps source_simps buffer_simps
        Roundup_def)
  from w c show ?thesis
    by simp
qed

text \<open>
  The claim as stated fails where the 64-bit cursor wraps. On a new decorator \<open>Skip(1)\<close>
  and \<open>Skip(2^64 - 1)\<close> move \<^verbatim>\<open>read_offset_\<close> from 0 to 1 and back to 0; the adapter
  with direct I/O at offset 1 is at offset 0 after \<open>Skip(2^64 - 1)\<close>.
\<close>

theorem cursor_wraps_counterexample:
  "cursors source_ops [SkipReq 1, SkipReq 18446744073709551615]
      (new_ReadaheadSequentialFile source_ops (new_source [] 4) 7) = [0, 1, 0]
   \<and> offset (snd (SequentialFileReader_Skip source_ops 18446744073709551615
        \<lparr>reader_file = (new_source [] 4)\<lparr>direct_io := True\<rparr>, offset = 1\<rparr>)) = 0
   \<and> \<not> ((1 :: size_t) \<le> 0)"
  by (simp add: new_ReadaheadSequentialFile_def decorator_simps source_simps buffer_simps
      Roundup_def SequentialFileReader_Skip_def)

subsection \<open>Reads of a decorator in step with its file\<close>

lemma take_drop_agree:
  assumes "take cs xs = take cs ys" and "d + k \<le> cs"
  shows "take k (drop d xs) = take k (drop d ys)"
proof -
  have "take k (drop d zs) = take k (drop d (take cs zs))" for zs :: "'a list"
    using assms(2) by (simp add: drop_take min_def)
  then show ?thesis
    using assms(1) by metis
qed

lemma TryReadFromCache_in_step:
  assumes inv: "in_step st"
    and t: "TryReadFromCache n st = (hit, cl, cached, st1)"
  shows "cached = take (unat cl) (drop (unat (read_offset st)) (contents (ra_file st)))"
    and "unat (read_offset st) + unat cl \<le> pos (ra_file st)"
    and "in_step st1"
    and "hit \<Longrightarrow> cursize (buffer st) \<noteq> 0
          \<and> unat cl = min (pos (ra_file st) - unat (read_offset st)) (unat n)
          \<and> unat (read_offset st) < pos (ra_file st)"
    and "\<not> hit \<Longrightarrow> unat (read_offset st) = pos (ra_file st)"
proof -
  note c = TryReadFromCache_cursor [OF t]
  have len64: "length (contents (ra_file st)) < 18446744073709551616"
    using inv by (simp add: in_step_def)
  have "cached = take (unat cl) (drop (unat (read_offset st)) (contents (ra_file st)))
      \<and> unat (read_offset st) + unat cl \<le> pos (ra_file st)
      \<and> in_step st1
      \<and> (hit \<longrightarrow> cursize (buffer st) \<noteq> 0
          \<and> unat cl = min (pos (ra_file st) - unat (read_offset st)) (unat n)
          \<and> unat (read_offset st) < pos (ra_file st))
      \<and> (\<not> hit \<longrightarrow> unat (read_offset st) = pos (ra_file st))"
  proof (cases "cursize (buffer st) = 0")
    case True
    then have "buffer_offset st + CurrentSize (buffer st) \<le> read_offset st
        \<or> read_offset st < buffer_offset st"
      by (auto simp add: CurrentSize_def)
    then have miss: "read_offset st < buffer_offset st
        \<or> buffer_offset st + CurrentSize (buffer st) \<le> read_offset st"
      by blast
    from t have "hit = False" "cl = 0" "cached = []" "st1 = st"
      unfolding TryReadFromCache_miss [OF miss] by simp_all
    with inv True show ?thesis
      by (simp add: in_step_def)
  next
    case False
    with inv have b: "unat (buffer_offset st) \<le> unat (read_offset st)"
      and r: "unat (read_offset st) \<le> pos (ra_file st)"
      and e: "unat (buffer_offset st) + unat (cursize (buffer st)) = pos (ra_file st)"
      and agree: "take (unat (cursize (buffer st))) (bufstart (buffer st))
                = take (unat (cursize (buffer st)))
                    (drop (unat (buffer_offset st)) (contents (ra_file st)))"
      and p: "pos (ra_file st) \<le> length (contents (ra_file st))"
      by (simp_all add: in_step_def)
    have e64: "unat (buffer_offset st) + unat (cursize (buffer st)) < 18446744073709551616"
      using e p len64 by linarith
    have ue: "unat (buffer_offset st + cursize (buffer st)) = pos (ra_file st)"
      using unat_add64_fits [OF e64] e by simp
    have nlt: "\<not> read_offset st < buffer_offset st"
      using b by (simp add: word_less_nat_alt)
    show ?thesis
    proof (cases "buffer_offset st + CurrentSize (buffer st) \<le> read_offset st")
      case True
      then have "pos (ra_file st) \<le> unat (read_offset st)"
        by (simp add: word_le_nat_alt CurrentSize_def ue)
      with r have at_end: "unat (read_offset st) = pos (ra_file st)"
        by linarith
      have miss: "read_offset st < buffer_offset st
        \<or> buffer_offset st + CurrentSize (buffer st) \<le> read_offset st"
        using True by blast
      from t have "hit = False" "cl = 0" "cached = []" "st1 = st"
        unfolding TryReadFromCache_miss [OF miss] by simp_all
      with inv at_end show ?thesis
        by simp
    next
      case nle: False
      note h = hit_no_overflow [OF nlt nle, unfolded CurrentSize_def]
      note l = hit_len [OF nlt nle, unfolded CurrentSize_def]
      from t have hit: "hit = True"
        and cl: "cl = min (cursize (buffer st) - (read_offset st - buffer_offset st)) n"
        and cached: "cached = take (unat cl)
            (drop (unat (read_offset st - buffer_offset st)) (bufstart (buffer st)))"
        and st1: "st1 = st\<lparr>read_offset := read_offset st + cl\<rparr>"
        unfolding TryReadFromCache_hit [OF nlt nle] by (auto simp add: CurrentSize_def)
      have ucl: "unat cl = min (pos (ra_file st) - unat (read_offset st)) (unat n)"
        unfolding cl l(2) e by simp
      have lt: "unat (read_offset st) < pos (ra_file st)"
        using h(2) e by simp
      have within: "unat (read_offset st) - unat (buffer_offset st) + unat cl
          \<le> unat (cursize (buffer st))"
        unfolding ucl using b e lt by linarith
      have "take (unat cl) (drop (unat (read_offset st) - unat (buffer_offset st))
            (bufstart (buffer st)))
          = take (unat cl) (drop (unat (read_offset st) - unat (buffer_offset st))
            (drop (unat (buffer_offset st)) (contents (ra_file st))))"
        by (rule take_drop_agree [OF agree within])
      also have "\<dots> = take (unat cl) (drop (unat (read_offset st)) (contents (ra_file st)))"
        using b by simp
      finally have bytes: "cached
          = take (unat cl) (drop (unat (read_offset st)) (contents (ra_file st)))"
        unfolding cached l(1) .
      have adv: "unat (read_offset st + cl) = unat (read_offset st) + unat cl"
        using c(2) by (simp add: st1)
      have le: "unat (read_offset st) + unat cl \<le> pos (ra_file st)"
        unfolding ucl using lt by linarith
      have "in_step st1"
        using inv False le b unfolding st1 in_step_def by (simp add: adv)
      with bytes le hit False ucl lt show ?thesis
        by simp
    qed
  qed
  then show "cached = take (unat cl) (drop (unat (read_offset st)) (contents (ra_file st)))"
    and "unat (read_offset st) + unat cl \<le> pos (ra_file st)"
    and "in_step st1"
    and "hit \<Longrightarrow> cursize (buffer st) \<noteq> 0
          \<and> unat cl = min (pos (ra_file st) - unat (read_offset st)) (unat n)
          \<and> unat (read_offset st) < pos (ra_file st)"
    and "\<not> hit \<Longrightarrow> unat (read_offset st) = pos (ra_file st)"
    by blast+
qed

lemma source_Read_ok:
  assumes "faults f = []"
  shows "Read source_ops k result f =
     (OK, take (unat k) (drop (pos f) (contents f)),
      f\<lparr>calls := calls f @ [ReadCall k (pos f)],
        pos := pos f + min (unat k) (length (contents f) - pos f)\<rparr>)"
  using assms
  by (simp add: source_ops_def source_Read_def failing_def logged_def Let_def min.commute)

lemma take_length_take: "take (length (take k ys)) ys = take k ys"
  by (simp add: min_def)

lemma take_append_next:
  "take a (drop r xs) @ take b (drop (r + a) xs) = take (a + b) (drop r xs)"
  by (simp add: take_add add.commute)

lemma take_min_length: "take (min k (length xs)) xs = take k xs"
  by (simp add: min_def)

lemma bypass_in_step:
  fixes k :: size_t and st1 :: "source ReadaheadSequentialFile"
  assumes inv: "in_step st1" and at: "unat (read_offset st1) = pos (ra_file st1)"
  defines "res \<equiv> take (unat k) (drop (pos (ra_file st1)) (contents (ra_file st1)))"
  defines "f \<equiv> (ra_file st1)\<lparr>calls := calls (ra_file st1) @ [ReadCall k (pos (ra_file st1))],
        pos := pos (ra_file st1)
           + min (unat k) (length (contents (ra_file st1)) - pos (ra_file st1))\<rparr>"
  defines "st2 \<equiv> st1\<lparr>ra_file := f, read_offset := read_offset st1 + word_of_nat (length res),
        buffer := Clear (buffer st1)\<rparr>"
  shows "Read source_ops k result (ra_file st1) = (OK, res, f)"
    and "length res = min (unat k) (length (contents (ra_file st1)) - pos (ra_file st1))"
    and "unat (read_offset st2) = unat (read_offset st1) + length res"
    and "in_step st2"
proof -
  have healthy: "faults (ra_file st1) = []"
    and la64: "length (contents (ra_file st1)) + unat (alignment st1) < 18446744073709551616"
    and p: "pos (ra_file st1) \<le> length (contents (ra_file st1))"
    using inv by (simp_all add: in_step_def)
  from la64 have len64: "length (contents (ra_file st1)) < 18446744073709551616"
    by linarith
  have al2: "alignment st2 = alignment st1"
    unfolding st2_def by simp
  show "Read source_ops k result (ra_file st1) = (OK, res, f)"
    unfolding res_def f_def by (rule source_Read_ok [OF healthy])
  show lres: "length res = min (unat k) (length (contents (ra_file st1)) - pos (ra_file st1))"
    unfolding res_def by (simp add: min.commute)
  have "length res < 18446744073709551616"
    unfolding lres using len64 by linarith
  then have u: "unat (word_of_nat (length res) :: 64 word) = length res"
    by (rule unat_word_of_nat64)
  have "pos (ra_file st1) + length res < 18446744073709551616"
    using lres len64 p by linarith
  then have "unat (read_offset st1) + unat (word_of_nat (length res) :: 64 word)
      < 18446744073709551616"
    by (simp only: u at)
  then have adv: "unat (read_offset st1 + word_of_nat (length res))
      = unat (read_offset st1) + length res"
    by (simp only: unat_add64_fits u)
  then show ro2: "unat (read_offset st2) = unat (read_offset st1) + length res"
    unfolding st2_def by simp
  have f1: "faults (ra_file st2) = []"
    unfolding st2_def f_def using healthy by simp
  have f2: "contents (ra_file st2) = contents (ra_file st1)"
    unfolding st2_def f_def by simp
  have f3: "capacity (buffer st2) = readahead_size st2"
    unfolding st2_def using inv by (simp add: in_step_def Clear_def)
  have f4: "pos (ra_file st2) = pos (ra_file st1) + length res"
    unfolding st2_def f_def lres by simp
  have f5: "cursize (buffer st2) = 0"
    unfolding st2_def by (simp add: Clear_def)
  have f6: "pos (ra_file st2) \<le> length (contents (ra_file st1))"
    unfolding f4 using lres p by linarith
  show "in_step st2"
    unfolding in_step_def f1 f2 f3 f5 ro2 at al2 using f4 f6 la64 by simp
qed

lemma refill_in_step:
  fixes st1 :: "source ReadaheadSequentialFile"
  assumes inv: "in_step st1" and at: "unat (read_offset st1) = pos (ra_file st1)"
  defines "res \<equiv> take (unat (readahead_size st1))
      (drop (pos (ra_file st1)) (contents (ra_file st1)))"
  defines "f \<equiv> (ra_file st1)\<lparr>calls := calls (ra_file st1)
          @ [ReadCall (readahead_size st1) (pos (ra_file st1))],
        pos := pos (ra_file st1) + min (unat (readahead_size st1))
           (length (contents (ra_file st1)) - pos (ra_file st1))\<rparr>"
  defines "st2 \<equiv> st1\<lparr>ra_file := f, buffer_offset := read_offset st1,
        buffer := Size (word_of_nat (length res)) (store res (buffer st1))\<rparr>"
  shows "ReadIntoBuffer source_ops (readahead_size st1) st1 = (OK, st2)"
    and "in_step st2"
    and "read_offset st2 = read_offset st1"
    and "pos (ra_file st2) - unat (read_offset st2)
          = min (unat (readahead_size st1)) (length (contents (ra_file st1)) - pos (ra_file st1))"
    and "contents (ra_file st2) = contents (ra_file st1)"
    and "alignment st2 = alignment st1" and "readahead_size st2 = readahead_size st1"
proof -
  have healthy: "faults (ra_file st1) = []"
    and la64: "length (contents (ra_file st1)) + unat (alignment st1) < 18446744073709551616"
    and p: "pos (ra_file st1) \<le> length (contents (ra_file st1))"
    and cap: "capacity (buffer st1) = readahead_size st1"
    using inv by (simp_all add: in_step_def)
  from la64 have len64: "length (contents (ra_file st1)) < 18446744073709551616"
    by linarith
  have al2: "alignment st2 = alignment st1"
    unfolding st2_def by simp
  have w: "Read source_ops
      (if Capacity (buffer st1) < readahead_size st1 then Capacity (buffer st1)
       else readahead_size st1) [] (ra_file st1) = (OK, res, f)"
    unfolding res_def f_def using source_Read_ok [OF healthy, of "readahead_size st1" "[]"]
    by (simp add: Capacity_def cap)
  show "ReadIntoBuffer source_ops (readahead_size st1) st1 = (OK, st2)"
    unfolding ReadIntoBuffer_cases [OF w] st2_def by (simp add: ok_def)
  have lres: "length res = min (unat (readahead_size st1))
      (length (contents (ra_file st1)) - pos (ra_file st1))"
    unfolding res_def by (simp add: min.commute)
  have "length res < 18446744073709551616"
    using lres len64 by linarith
  then have u: "unat (word_of_nat (length res) :: 64 word) = length res"
    by (rule unat_word_of_nat64)
  show ro2: "read_offset st2 = read_offset st1"
    unfolding st2_def by simp
  have f1: "faults (ra_file st2) = []"
    unfolding st2_def f_def using healthy by simp
  show f2: "contents (ra_file st2) = contents (ra_file st1)"
    unfolding st2_def f_def by simp
  have f3: "capacity (buffer st2) = readahead_size st2"
    unfolding st2_def using cap by (simp add: Size_def store_def)
  have f4: "pos (ra_file st2) = pos (ra_file st1) + length res"
    unfolding st2_def f_def lres by simp
  have f5: "unat (cursize (buffer st2)) = length res"
    unfolding st2_def using u by (simp add: Size_def)
  have f6: "pos (ra_file st2) \<le> length (contents (ra_file st1))"
    unfolding f4 using lres p by linarith
  have f7: "unat (buffer_offset st2) = pos (ra_file st1)"
    unfolding st2_def using at by simp
  have f8: "take (length res) (bufstart (buffer st2))
      = take (length res) (drop (pos (ra_file st1)) (contents (ra_file st1)))"
    unfolding st2_def res_def by (simp add: Size_def store_def min_def)
  have f9: "length res \<le> unat (readahead_size st2)"
    and f10: "length res = unat (readahead_size st2)
        \<or> pos (ra_file st2) = length (contents (ra_file st1))"
    unfolding f4 using lres p by (simp_all add: st2_def) linarith+
  have f11: "cursize (buffer st2) = 0 \<longleftrightarrow> length res = 0"
    using f5 by (simp add: unat_eq_0 [symmetric] del: unat_eq_0)
  show "in_step st2"
    unfolding in_step_def f1 f2 f3 f5 f7 f11 ro2 at al2
    using f4 f6 f8 f9 f10 la64 by simp
  show "pos (ra_file st2) - unat (read_offset st2)
          = min (unat (readahead_size st1)) (length (contents (ra_file st1)) - pos (ra_file st1))"
    unfolding ro2 at f4 lres by simp
  show "alignment st2 = alignment st1" and "readahead_size st2 = readahead_size st1"
    unfolding st2_def by simp_all
qed

lemma Read_in_step:
  assumes inv: "in_step st"
  shows "\<exists>m \<le> unat n. delivers m st (ReadaheadSequentialFile_Read source_ops n result st)
     \<and> (unat n + unat (alignment st) < 2 ^ 64 \<longrightarrow>
          m = min (unat n) (length (contents (ra_file st)) - unat (read_offset st)))"
proof -
  obtain hit cl cached st1 where t: "TryReadFromCache n st = (hit, cl, cached, st1)"
    by (cases "TryReadFromCache n st") auto
  note c = TryReadFromCache_cursor [OF t]
  note i = TryReadFromCache_in_step [OF inv t]
  define ro where "ro = unat (read_offset st)"
  define p where "p = pos (ra_file st)"
  define L where "L = length (contents (ra_file st))"
  define bs where "bs = contents (ra_file st)"
  have pL: "p \<le> L"
    using inv unfolding p_def L_def by (simp add: in_step_def)
  have rop: "ro + unat cl \<le> p"
    using i(2) unfolding ro_def p_def .
  have same: "ra_file st1 = ra_file st" "alignment st1 = alignment st"
      "readahead_size st1 = readahead_size st" "buffer st1 = buffer st"
    by (simp_all add: c(1))
  have ro1: "unat (read_offset st1) = ro + unat cl"
    using c(2) unfolding ro_def .
  have cached: "cached = take (unat cl) (drop ro bs)"
    using i(1) unfolding ro_def bs_def .
  have cln: "unat cl \<le> unat n"
    by (rule c(3))
  then have "cl \<le> n"
    by (simp add: word_le_nat_alt)
  then have n1: "unat (n - cl) = unat n - unat cl"
    by (rule unat_sub)
  have exhausted: "unat (read_offset st1) = pos (ra_file st1)"
    if "\<not> (hit \<and> (cl = n \<or> CurrentSize (buffer st1) < readahead_size st1))"
  proof (cases hit)
    case False
    from i(5) [OF False] c(5) [OF False] show ?thesis
      by simp
  next
    case True
    with that have "cl \<noteq> n"
      by simp
    then have "unat cl \<noteq> unat n"
      by (simp add: word_unat_eq_iff)
    with i(4) [OF True] have "unat cl = p - ro"
      unfolding p_def ro_def by linarith
    with i(4) [OF True] show ?thesis
      unfolding ro1 same p_def ro_def by linarith
  qed
  consider (served) "hit \<and> (cl = n \<or> CurrentSize (buffer st1) < readahead_size st1)"
    | (bypass) "\<not> (hit \<and> (cl = n \<or> CurrentSize (buffer st1) < readahead_size st1))"
        "readahead_size st1 \<le> n - cl + alignment st1"
    | (refill) "\<not> (hit \<and> (cl = n \<or> CurrentSize (buffer st1) < readahead_size st1))"
        "\<not> readahead_size st1 \<le> n - cl + alignment st1"
    by blast
  then show ?thesis
  proof cases
    case served
    then have hit by simp
    note h = i(4) [OF this]
    have d: "delivers (unat cl) st (OK, cached, st1)"
      unfolding delivers_def using cached rop pL ro1 i(3) same
      by (simp add: ro_def bs_def L_def)
    have "unat cl = min (unat n) (L - ro)"
    proof (cases "cl = n")
      case True
      then show ?thesis using rop pL by simp
    next
      case False
      with served have "CurrentSize (buffer st1) < readahead_size st1"
        by simp
      then have "unat (cursize (buffer st)) < unat (readahead_size st)"
        by (simp add: word_less_nat_alt CurrentSize_def same)
      with inv h have "p = L"
        unfolding p_def L_def by (simp add: in_step_def)
      with h show ?thesis
        unfolding p_def ro_def by (simp add: min.commute)
    qed
    with d cln show ?thesis
      unfolding Read_served [OF t served] L_def ro_def by blast
  next
    case bypass
    have at1: "unat (read_offset st1) = pos (ra_file st1)"
      by (rule exhausted [OF bypass(1)])
    note b = bypass_in_step(1) [OF i(3) at1, of "n - cl" result]
      bypass_in_step(2-4) [OF i(3) at1, of "n - cl"]
    define res where "res = take (unat (n - cl)) (drop (pos (ra_file st1)) (contents (ra_file st1)))"
    define st2 where "st2 = st1\<lparr>ra_file := ra_file st1
         \<lparr>calls := calls (ra_file st1) @ [ReadCall (n - cl) (pos (ra_file st1))],
          pos := pos (ra_file st1)
            + min (unat (n - cl)) (length (contents (ra_file st1)) - pos (ra_file st1))\<rparr>,
        read_offset := read_offset st1 + word_of_nat (length res),
        buffer := Clear (buffer st1)\<rparr>"
    note b' = b [folded res_def, folded st2_def]
    have pos1: "pos (ra_file st) = ro + unat cl"
      using at1 ro1 by (simp add: same)
    have lres: "length res = min (unat n - unat cl) (L - (ro + unat cl))"
      using b'(2) by (simp add: n1 same L_def pos1)
    have r: "ReadaheadSequentialFile_Read source_ops n result st = (OK, cached @ res, st2)"
      unfolding Read_bypass [OF t bypass b'(1)] st2_def by (simp add: ok_def)
    define k where "k = length res"
    have "res = take (unat n - unat cl) (drop (ro + unat cl) bs)"
      unfolding res_def by (simp add: n1 same bs_def pos1)
    also have "\<dots> = take k (drop (ro + unat cl) bs)"
      unfolding k_def lres
      using take_min_length [of "unat n - unat cl" "drop (ro + unat cl) bs"]
      by (simp add: L_def bs_def)
    finally have eq: "res = take k (drop (ro + unat cl) bs)" .
    have "cached @ res = take (unat cl + k) (drop ro bs)"
      unfolding cached eq by (simp only: take_append_next)
    then have "cached @ res = take (unat cl + length res) (drop ro bs)"
      unfolding k_def .
    moreover have "unat (read_offset st2) = ro + (unat cl + length res)"
      using b'(3) ro1 by simp
    moreover have "ro + (unat cl + length res) \<le> L"
      unfolding lres using rop pL by linarith
    moreover have "contents (ra_file st2) = bs" "alignment st2 = alignment st"
        "readahead_size st2 = readahead_size st"
      unfolding st2_def bs_def by (simp_all add: same)
    ultimately have d: "delivers (unat cl + length res) st (OK, cached @ res, st2)"
      unfolding delivers_def using b'(4) by (simp add: ro_def bs_def L_def)
    have "unat cl + length res = min (unat n) (L - ro)"
      unfolding lres using cln rop pL by linarith
    moreover have "unat cl + length res \<le> unat n"
      unfolding lres using cln by linarith
    ultimately show ?thesis
      unfolding r using d unfolding L_def ro_def by blast
  next
    case refill
    have at1: "unat (read_offset st1) = pos (ra_file st1)"
      by (rule exhausted [OF refill(1)])
    note f = refill_in_step [OF i(3) at1]
    define st2 where "st2 = st1\<lparr>ra_file := ra_file st1
         \<lparr>calls := calls (ra_file st1) @ [ReadCall (readahead_size st1) (pos (ra_file st1))],
          pos := pos (ra_file st1) + min (unat (readahead_size st1))
            (length (contents (ra_file st1)) - pos (ra_file st1))\<rparr>,
        buffer_offset := read_offset st1,
        buffer := Size (word_of_nat (length (take (unat (readahead_size st1))
            (drop (pos (ra_file st1)) (contents (ra_file st1))))))
          (store (take (unat (readahead_size st1))
            (drop (pos (ra_file st1)) (contents (ra_file st1)))) (buffer st1))\<rparr>"
    note f' = f [folded st2_def]
    obtain hit2 cl2 rest st3 where t2: "TryReadFromCache (n - cl) st2 = (hit2, cl2, rest, st3)"
      by (cases "TryReadFromCache (n - cl) st2") auto
    note c2 = TryReadFromCache_cursor [OF t2]
    note i2 = TryReadFromCache_in_step [OF f'(2) t2]
    have r: "ReadaheadSequentialFile_Read source_ops n result st = (OK, cached @ rest, st3)"
      unfolding Read_refill [OF t refill f'(1)] t2 by (simp add: ok_def)
    have ro2: "unat (read_offset st2) = ro + unat cl"
      unfolding f'(3) by (rule ro1)
    have pos1: "pos (ra_file st) = ro + unat cl"
      using at1 ro1 by (simp add: same)
    have avail: "pos (ra_file st2) - (ro + unat cl)
        = min (unat (readahead_size st)) (L - (ro + unat cl))"
      using f'(4) by (simp add: ro2 same L_def pos1)
    have rest: "rest = take (unat cl2) (drop (ro + unat cl) bs)"
      using i2(1) by (simp add: ro2 f'(5) same bs_def)
    have cl2n: "unat cl2 \<le> unat n - unat cl"
      using c2(3) unfolding n1 .
    have "cached @ rest = take (unat cl + unat cl2) (drop ro bs)"
      unfolding cached rest by (simp only: take_append_next)
    moreover have "unat (read_offset st3) = ro + (unat cl + unat cl2)"
      using c2(2) ro2 by simp
    moreover have "pos (ra_file st2) \<le> L"
      using f'(2) unfolding L_def in_step_def f'(5) same by simp
    with i2(2) have "ro + (unat cl + unat cl2) \<le> L"
      unfolding ro2 by linarith
    moreover have "contents (ra_file st3) = bs" "alignment st3 = alignment st"
        "readahead_size st3 = readahead_size st"
      unfolding c2(1) bs_def by (simp_all add: f'(5,6,7) same)
    ultimately have d: "delivers (unat cl + unat cl2) st (OK, cached @ rest, st3)"
      unfolding delivers_def using i2(3) by (simp add: ro_def bs_def L_def)
    have exact: "unat cl + unat cl2 = min (unat n) (L - ro)"
      if fits: "unat n + unat (alignment st) < 2 ^ 64"
    proof -
      have b64: "unat (n - cl) + unat (alignment st) < 18446744073709551616"
        unfolding n1 using fits by simp
      have "unat (n - cl + alignment st) = unat n - unat cl + unat (alignment st)"
        by (simp only: unat_add64_fits [OF b64] n1)
      with refill(2) have small: "unat n - unat cl < unat (readahead_size st)"
        by (simp add: word_le_nat_alt same)
      have "unat cl2 = min (unat n - unat cl) (L - (ro + unat cl))"
      proof (cases hit2)
        case True
        from i2(4) [OF True] have "unat cl2
            = min (pos (ra_file st2) - (ro + unat cl)) (unat n - unat cl)"
          unfolding ro2 n1 by simp
        then show ?thesis
          unfolding avail using small by linarith
      next
        case False
        from i2(5) [OF False] have "pos (ra_file st2) - (ro + unat cl) = 0"
          unfolding ro2 by simp
        with avail small have "L - (ro + unat cl) = 0"
          by linarith
        with c2(5) [OF False] show ?thesis
          by simp
      qed
      then show ?thesis
        using cln rop pL by linarith
    qed
    have "unat cl + unat cl2 \<le> unat n"
      using cl2n cln by linarith
    with d exact show ?thesis
      unfolding r L_def ro_def by blast
  qed
qed

lemma source_Skip_ok:
  assumes "faults f = []"
  shows "Skip source_ops k f = (OK, f\<lparr>calls := calls f @ [SkipCall k (pos f)],
      pos := pos f + unat k\<rparr>)"
  using assms by (simp add: source_ops_def source_Skip_def failing_def logged_def)

lemma Skip_in_step:
  assumes inv: "in_step st"
    and within: "unat (read_offset st) + unat k \<le> length (contents (ra_file st))"
  shows "fst (ReadaheadSequentialFile_Skip source_ops k st) = OK
     \<and> in_step (snd (ReadaheadSequentialFile_Skip source_ops k st))
     \<and> unat (read_offset (snd (ReadaheadSequentialFile_Skip source_ops k st)))
          = unat (read_offset st) + unat k
     \<and> contents (ra_file (snd (ReadaheadSequentialFile_Skip source_ops k st)))
          = contents (ra_file st)
     \<and> alignment (snd (ReadaheadSequentialFile_Skip source_ops k st)) = alignment st
     \<and> readahead_size (snd (ReadaheadSequentialFile_Skip source_ops k st))
          = readahead_size st"
proof -
  have healthy: "faults (ra_file st) = []"
    and len64: "length (contents (ra_file st)) < 18446744073709551616"
    and p: "pos (ra_file st) \<le> length (contents (ra_file st))"
    using inv by (simp_all add: in_step_def)
  have f64: "unat (read_offset st) + unat k < 18446744073709551616"
    using within len64 by linarith
  then have rk: "unat (read_offset st + k) = unat (read_offset st) + unat k"
    by (rule unat_add64_fits)
  note sk = source_Skip_ok [OF healthy]
  show ?thesis
  proof (cases "cursize (buffer st) = 0")
    case True
    with inv have at: "unat (read_offset st) = pos (ra_file st)"
      by (simp add: in_step_def)
    show ?thesis
    proof (cases "k = 0")
      case k0: True
      with True inv show ?thesis
        unfolding Skip_cases by simp
    next
      case False
      have "in_step (st\<lparr>read_offset := read_offset st + k,
          ra_file := (ra_file st)\<lparr>calls := calls (ra_file st) @ [SkipCall k (pos (ra_file st))],
            pos := pos (ra_file st) + unat k\<rparr>,
          buffer := Clear (buffer st)\<rparr>)"
        using inv within at unfolding in_step_def by (simp add: Clear_def rk)
      with True False show ?thesis
        unfolding Skip_cases sk by (simp add: ok_def rk)
    qed
  next
    case False
    with inv have b: "unat (buffer_offset st) \<le> unat (read_offset st)"
      and r: "unat (read_offset st) \<le> pos (ra_file st)"
      and e: "unat (buffer_offset st) + unat (cursize (buffer st)) = pos (ra_file st)"
      by (simp_all add: in_step_def)
    have e64: "unat (buffer_offset st) + unat (cursize (buffer st)) < 18446744073709551616"
      using e p len64 by linarith
    have be: "unat (buffer_offset st + cursize (buffer st)) = pos (ra_file st)"
      using unat_add64_fits [OF e64] e by simp
    show ?thesis
    proof (cases "buffer_offset st + cursize (buffer st) \<le> read_offset st + k")
      case beyond: True
      then have bk: "pos (ra_file st) \<le> unat (read_offset st) + unat k"
        by (simp add: word_le_nat_alt be rk)
      define e' where "e' = buffer_offset st + cursize (buffer st)"
      define n1 where "n1 = k - (e' - read_offset st)"
      have ue: "unat e' = pos (ra_file st)"
        unfolding e'_def by (rule be)
      have "read_offset st \<le> e'"
        using r by (simp add: word_le_nat_alt ue)
      then have cons: "unat (e' - read_offset st) = pos (ra_file st) - unat (read_offset st)"
        by (simp add: unat_sub ue)
      have "e' - read_offset st \<le> k"
        using bk r by (simp add: word_le_nat_alt cons)
      then have un1: "unat n1 = unat k - (pos (ra_file st) - unat (read_offset st))"
        unfolding n1_def by (simp add: unat_sub cons)
      have "unat e' + unat n1 < 18446744073709551616"
        unfolding un1 ue using f64 bk r by linarith
      then have "unat (e' + n1) = unat e' + unat n1"
        by (rule unat_add64_fits)
      then have adv: "unat (e' + n1) = unat (read_offset st) + unat k"
        unfolding un1 ue using bk r by linarith
      have zero: "n1 = 0 \<Longrightarrow> pos (ra_file st) = unat (read_offset st) + unat k"
        using un1 bk r by (simp add: unat_eq_0 [symmetric] del: unat_eq_0)
      have res: "ReadaheadSequentialFile_Skip source_ops k st =
         (if n1 = 0 then (OK, st\<lparr>read_offset := e'\<rparr>)
          else (OK, st\<lparr>read_offset := e' + n1,
                  ra_file := (ra_file st)\<lparr>calls := calls (ra_file st)
                      @ [SkipCall n1 (pos (ra_file st))],
                    pos := pos (ra_file st) + unat n1\<rparr>,
                  buffer := Clear (buffer st)\<rparr>))"
        unfolding Skip_cases Let_def sk e'_def n1_def using False beyond
        by (simp add: ok_def)
      have in1: "in_step (st\<lparr>read_offset := e'\<rparr>)"
        using inv False b unfolding in_step_def by (simp add: ue)
      have "pos (ra_file st) + unat n1 = unat (read_offset st) + unat k"
        unfolding un1 using bk r by linarith
      then have in2: "in_step (st\<lparr>read_offset := e' + n1,
                  ra_file := (ra_file st)\<lparr>calls := calls (ra_file st)
                      @ [SkipCall n1 (pos (ra_file st))],
                    pos := pos (ra_file st) + unat n1\<rparr>,
                  buffer := Clear (buffer st)\<rparr>)"
        using inv within unfolding in_step_def by (simp add: Clear_def adv)
      show ?thesis
        unfolding res using in1 in2 adv ue zero by simp
    next
      case inside: False
      then have lt: "unat (read_offset st) + unat k < pos (ra_file st)"
        by (simp add: word_le_nat_alt be rk)
      have "in_step (st\<lparr>read_offset := read_offset st + k\<rparr>)"
        using inv False b lt unfolding in_step_def by (simp add: rk)
      with False inside show ?thesis
        unfolding Skip_cases by (simp add: rk)
    qed
  qed
qed

lemma div_round: "0 < (a::nat) \<Longrightarrow> (q * a + a - 1) div a = q"
proof -
  assume pos: "0 < a"
  then have ne: "a \<noteq> 0" by simp
  have "q * a + a - 1 = (a - 1) + q * a"
    using pos by simp
  moreover have "((a - 1) + q * a) div a = q + (a - 1) div a"
    by (rule div_mult_self1 [OF ne])
  moreover have "(a - 1) div a = 0"
    using pos by simp
  ultimately show ?thesis by simp
qed

lemma Roundup_twice:
  assumes "a \<noteq> 0" and "unat rs + unat a \<le> 2 ^ 64"
  shows "Roundup (Roundup rs a) a = Roundup rs a"
proof -
  have pos: "0 < unat a"
    using assms(1) by (simp add: unat_gt_0)
  define q where "q = (unat rs + unat a - 1) div unat a"
  have u: "unat (Roundup rs a) = q * unat a"
    unfolding q_def by (rule unat_Roundup [OF assms])
  have "(q * unat a + unat a - 1) div unat a = q"
    by (rule div_round [OF pos])
  then have "Roundup (Roundup rs a) a = word_of_nat (q * unat a)"
    unfolding Roundup_def [of "Roundup rs a"] u by simp
  also have "\<dots> = word_of_nat (unat (Roundup rs a))"
    unfolding u ..
  finally show ?thesis
    by simp
qed

lemma new_in_step:
  assumes "a \<noteq> 0" and "unat rs + unat a \<le> 2 ^ 64" and "length bs + unat a < 2 ^ 64"
  shows "in_step (new_ReadaheadSequentialFile source_ops (new_source bs a) rs)"
  using assms(3) Roundup_twice [OF assms(1,2)]
  by (simp add: in_step_def new_ReadaheadSequentialFile_def Let_def source_ops_def new_source_def
      AllocateNewBuffer_def Alignment_def new_AlignedBuffer_def)

lemma serve_read_in_step:
  assumes inv: "in_step st"
  shows "\<exists>m \<le> unat n. delivers m st (OK, snd (fst (serve source_ops (ReadReq n) st)),
        snd (serve source_ops (ReadReq n) st))
     \<and> fst (fst (serve source_ops (ReadReq n) st)) = OK"
proof -
  obtain s bytes st' where r: "ReadaheadSequentialFile_Read source_ops n [] st = (s, bytes, st')"
    by (cases "ReadaheadSequentialFile_Read source_ops n [] st") auto
  from Read_in_step [OF inv, of n "[]"] obtain m where m: "m \<le> unat n"
    "delivers m st (ReadaheadSequentialFile_Read source_ops n [] st)"
    by blast
  from m(2) have "s = OK" and "delivers m st (OK, bytes, st')"
    unfolding r by (simp_all add: delivers_def)
  with m(1) show ?thesis
    by (intro exI [of _ m]) (simp add: r)
qed

lemma in_step_cursor:
  "in_step st \<Longrightarrow> unat (read_offset st) \<le> length (contents (ra_file st))"
  by (auto simp add: in_step_def split: if_splits)

lemma reads_in_step:
  "in_step st \<Longrightarrow>
     \<exists>m. concat (map snd (fst (run source_ops (map ReadReq ns) st)))
           = take m (drop (unat (read_offset st)) (contents (ra_file st)))
        \<and> unat (read_offset st) + m \<le> length (contents (ra_file st))
        \<and> list_all (\<lambda>x. fst x = OK) (fst (run source_ops (map ReadReq ns) st))
        \<and> in_step (snd (run source_ops (map ReadReq ns) st))"
proof (induction ns arbitrary: st)
  case Nil
  then show ?case
    using in_step_cursor [of st] by (intro exI [of _ 0]) simp
next
  case (Cons n ns)
  let ?a = "fst (serve source_ops (ReadReq n) st)"
  let ?st1 = "snd (serve source_ops (ReadReq n) st)"
  from serve_read_in_step [OF Cons.prems, of n] obtain m1 where
    d: "delivers m1 st (OK, snd ?a, ?st1)" and s: "fst ?a = OK"
    by blast
  from d have bytes: "snd ?a = take m1 (drop (unat (read_offset st)) (contents (ra_file st)))"
    and ro1: "unat (read_offset ?st1) = unat (read_offset st) + m1"
    and inv1: "in_step ?st1"
    and same: "contents (ra_file ?st1) = contents (ra_file st)"
    by (simp_all add: delivers_def)
  from Cons.IH [OF inv1] obtain m2 where
    rest: "concat (map snd (fst (run source_ops (map ReadReq ns) ?st1)))
        = take m2 (drop (unat (read_offset st) + m1) (contents (ra_file st)))"
    and le: "unat (read_offset st) + m1 + m2 \<le> length (contents (ra_file st))"
    and oks: "list_all (\<lambda>x. fst x = OK) (fst (run source_ops (map ReadReq ns) ?st1))"
    and inv2: "in_step (snd (run source_ops (map ReadReq ns) ?st1))"
    unfolding ro1 same by blast
  have run: "run source_ops (map ReadReq (n # ns)) st
      = (?a # fst (run source_ops (map ReadReq ns) ?st1),
         snd (run source_ops (map ReadReq ns) ?st1))"
    by (simp add: Let_def split: prod.splits)
  have "concat (map snd (fst (run source_ops (map ReadReq (n # ns)) st)))
      = take (m1 + m2) (drop (unat (read_offset st)) (contents (ra_file st)))"
    unfolding run using bytes rest by (simp add: take_append_next)
  with le s oks inv2 show ?case
    unfolding run by (intro exI [of _ "m1 + m2"]) (simp add: add.assoc)
qed

subsection \<open>Reads of the file itself\<close>

lemma take_take_drop_min:
  "take a xs @ take b (drop (min a (length xs)) xs) = take (a + b) xs"
proof (cases "a \<le> length xs")
  case True
  then show ?thesis by (simp add: take_add min_def)
next
  case False
  then show ?thesis by (simp add: min_def)
qed

lemma source_Read_fields:
  assumes "faults s = []"
  obtains s1 where "source_Read n result s
       = (OK, take (unat n) (drop (pos s) (contents s)), s1)"
    and "faults s1 = []" and "contents s1 = contents s"
    and "pos s1 = pos s + min (unat n) (length (contents s) - pos s)"
  using assms by (simp add: source_Read_def failing_def logged_def Let_def)

lemma read_all_source:
  "faults s = [] \<Longrightarrow>
     list_all (\<lambda>x. fst x = OK) (fst (read_all source_ops ns s))
     \<and> concat (map snd (fst (read_all source_ops ns s)))
         = take (sum_list (map unat ns)) (drop (pos s) (contents s))"
proof (induction ns arbitrary: s)
  case Nil
  then show ?case by simp
next
  case (Cons n ns)
  from source_Read_fields [OF Cons.prems, of n "[]"] obtain s1 where
    r: "source_Read n [] s = (OK, take (unat n) (drop (pos s) (contents s)), s1)"
    and f: "faults s1 = []" and c: "contents s1 = contents s"
    and p: "pos s1 = pos s + min (unat n) (length (contents s) - pos s)"
    by blast
  have step: "read_all source_ops (n # ns) s
      = ((OK, take (unat n) (drop (pos s) (contents s))) # fst (read_all source_ops ns s1),
         snd (read_all source_ops ns s1))"
    using r by (simp add: source_ops_def split: prod.splits)
  from Cons.IH [OF f] have oks: "list_all (\<lambda>x. fst x = OK) (fst (read_all source_ops ns s1))"
    and rest: "concat (map snd (fst (read_all source_ops ns s1)))
         = take (sum_list (map unat ns))
             (drop (min (unat n) (length (drop (pos s) (contents s)))) (drop (pos s) (contents s)))"
    unfolding c p by (simp_all add: add.commute)
  have "concat (map snd (fst (read_all source_ops (n # ns) s)))
      = take (unat n + sum_list (map unat ns)) (drop (pos s) (contents s))"
    unfolding step using rest
    by (simp only: fst_conv snd_conv list.map concat.simps take_take_drop_min)
  with oks show ?case
    unfolding step by simp
qed

lemma reads_match_file:
  "in_step st \<Longrightarrow> \<forall>n \<in> set ns. unat n + unat (alignment st) < 2 ^ 64 \<Longrightarrow>
   faults s = [] \<Longrightarrow> contents s = contents (ra_file st) \<Longrightarrow> pos s = unat (read_offset st) \<Longrightarrow>
     fst (run source_ops (map ReadReq ns) st) = fst (read_all source_ops ns s)"
proof (induction ns arbitrary: st s)
  case Nil
  then show ?case by simp
next
  case (Cons n ns)
  define bs where "bs = contents (ra_file st)"
  define ro where "ro = unat (read_offset st)"
  have fits: "unat n + unat (alignment st) < 2 ^ 64"
    using Cons.prems(2) by simp
  obtain sd bytes st1 where rd: "ReadaheadSequentialFile_Read source_ops n [] st = (sd, bytes, st1)"
    by (cases "ReadaheadSequentialFile_Read source_ops n [] st") auto
  from Read_in_step [OF Cons.prems(1), of n "[]"] obtain m where
    d: "delivers m st (ReadaheadSequentialFile_Read source_ops n [] st)"
    and imp: "unat n + unat (alignment st) < 2 ^ 64 \<longrightarrow>
          m = min (unat n) (length (contents (ra_file st)) - unat (read_offset st))"
    by blast
  from imp fits have m: "m = min (unat n) (length bs - ro)"
    unfolding bs_def ro_def by (rule mp)
  from d have sd: "sd = OK" and bytes: "bytes = take m (drop ro bs)"
    and ro1: "unat (read_offset st1) = ro + m" and inv1: "in_step st1"
    and same: "contents (ra_file st1) = bs" and al: "alignment st1 = alignment st"
    unfolding rd bs_def ro_def by (simp_all add: delivers_def)
  have bytes': "bytes = take (unat n) (drop ro bs)"
    unfolding bytes m using take_min_length [of "unat n" "drop ro bs"] by simp
  from source_Read_fields [OF Cons.prems(3), of n "[]"] obtain s1 where
    r: "source_Read n [] s = (OK, take (unat n) (drop (pos s) (contents s)), s1)"
    and f: "faults s1 = []" and c: "contents s1 = contents s"
    and p: "pos s1 = pos s + min (unat n) (length (contents s) - pos s)"
    by blast
  have r': "source_Read n [] s = (OK, bytes, s1)"
    using r unfolding bytes' Cons.prems(4,5) bs_def ro_def .
  have c1: "contents s1 = contents (ra_file st1)"
    unfolding c same Cons.prems(4) bs_def ..
  have p1: "pos s1 = unat (read_offset st1)"
    unfolding p ro1 m Cons.prems(4,5) bs_def ro_def ..
  have rest: "\<forall>n \<in> set ns. unat n + unat (alignment st1) < 2 ^ 64"
    using Cons.prems(2) unfolding al by simp
  note ih = Cons.IH [OF inv1 rest f c1 p1]
  have "fst (run source_ops (map ReadReq (n # ns)) st)
      = (OK, bytes) # fst (run source_ops (map ReadReq ns) st1)"
    using rd sd by (simp add: Let_def split: prod.splits)
  moreover have "fst (read_all source_ops (n # ns) s)
      = (OK, bytes) # fst (read_all source_ops ns s1)"
    using r' by (simp add: source_ops_def split: prod.splits)
  ultimately show ?case
    using ih by simp
qed

lemma Roundup_twice_pow2:
  assumes "k < 64"
  shows "Roundup (Roundup rs (2 ^ k)) (2 ^ k) = Roundup rs (2 ^ k)"
proof -
  define A :: nat where "A = 2 ^ k"
  have ua: "unat (2 ^ k :: size_t) = A"
    unfolding A_def by (rule unat_pow2 [OF assms])
  have pos: "0 < A"
    unfolding A_def by simp
  define q where "q = (unat rs + A - 1) div A"
  have "k \<le> 64"
    using assms by simp
  then have "(2 :: nat) ^ k dvd 2 ^ 64"
    by (rule le_imp_power_dvd)
  then have "A dvd (q * A) mod 2 ^ 64"
    unfolding A_def by (simp add: dvd_mod)
  then obtain q' where q': "(q * A) mod 2 ^ 64 = q' * A"
    by (auto simp add: dvd_def mult.commute)
  have first: "Roundup rs (2 ^ k) = word_of_nat (q * A)"
    unfolding Roundup_def ua q_def ..
  have u: "unat (word_of_nat (q * A) :: size_t) = q' * A"
    unfolding unat_of_nat using q' by simp
  have "(q' * A + A - 1) div A = q'"
    by (rule div_round [OF pos])
  then have "Roundup (word_of_nat (q * A)) (2 ^ k) = (word_of_nat (q' * A) :: size_t)"
    unfolding Roundup_def ua u by simp
  also have "\<dots> = word_of_nat (unat (word_of_nat (q * A) :: size_t))"
    unfolding u ..
  also have "\<dots> = word_of_nat (q * A)"
    by simp
  finally show ?thesis
    unfolding first .
qed

lemma new_in_step_pow2:
  assumes "k < 64" and "length bs + unat (2 ^ k :: size_t) < 2 ^ 64"
  shows "in_step (new_ReadaheadSequentialFile source_ops (new_source bs (2 ^ k)) rs)"
  using assms(2) Roundup_twice_pow2 [OF assms(1)]
  by (simp add: in_step_def new_ReadaheadSequentialFile_def Let_def source_ops_def new_source_def
      AllocateNewBuffer_def Alignment_def new_AlignedBuffer_def)

subsection \<open>Cache transparency\<close>

text \<open>
  Claim C2, as amended. Take a file of any content whose alignment is a power of two, the
  length of the file plus the alignment below \<open>2^64\<close>, and a new decorator over it, of
  any requested readahead size. For every sequence of sizes each of which, plus the
  alignment, is below \<open>2^64\<close>, the reads of these sizes, issued one after the other with
  no other call in between, return what the same reads return when issued to the file
  itself: OK each time and the same bytes, call by call. Concatenated, the bytes are the
  prefix of the file whose length is the sum of the sizes (the whole file when the sum
  exceeds it): that prefix of what one read of the whole length returns on the file.
\<close>

theorem cache_transparency:
  assumes "a = 2 ^ k" and "k < 64" and "length bs + unat a < 2 ^ 64"
    and "\<forall>n \<in> set ns. unat n + unat a < 2 ^ 64"
  shows "fst (run source_ops (map ReadReq ns)
          (new_ReadaheadSequentialFile source_ops (new_source bs a) rs))
       = fst (read_all source_ops ns (new_source bs a))
     \<and> list_all (\<lambda>x. fst x = OK)
          (fst (run source_ops (map ReadReq ns)
             (new_ReadaheadSequentialFile source_ops (new_source bs a) rs)))
     \<and> concat (map snd (fst (run source_ops (map ReadReq ns)
          (new_ReadaheadSequentialFile source_ops (new_source bs a) rs))))
       = take (sum_list (map unat ns)) bs
     \<and> concat (map snd (fst (run source_ops (map ReadReq ns)
          (new_ReadaheadSequentialFile source_ops (new_source bs a) rs))))
       = take (sum_list (map unat ns))
           (fst (snd (Read source_ops (word_of_nat (length bs)) [] (new_source bs a))))"
proof -
  let ?s = "new_source bs a"
  let ?st = "new_ReadaheadSequentialFile source_ops ?s rs"
  have inv: "in_step ?st"
    using new_in_step_pow2 [OF assms(2), of bs rs] assms(3) unfolding assms(1) by simp
  have start: "alignment ?st = a" "contents ?s = contents (ra_file ?st)"
      "pos ?s = unat (read_offset ?st)" "faults ?s = []" "pos ?s = 0" "contents ?s = bs"
    by (simp_all add: new_ReadaheadSequentialFile_def Let_def new_source_def source_ops_def)
  have fits: "\<forall>n \<in> set ns. unat n + unat (alignment ?st) < 2 ^ 64"
    unfolding start(1) by (rule assms(4))
  have same: "fst (run source_ops (map ReadReq ns) ?st) = fst (read_all source_ops ns ?s)"
    by (rule reads_match_file [OF inv fits start(4) start(2) start(3)])
  from read_all_source [OF start(4), of ns]
  have oks: "list_all (\<lambda>x. fst x = OK) (fst (read_all source_ops ns ?s))"
    and stream: "concat (map snd (fst (read_all source_ops ns ?s)))
        = take (sum_list (map unat ns)) bs"
    unfolding start(5) start(6) by simp_all
  have "length bs < 18446744073709551616"
    using assms(3) by simp
  then have "unat (word_of_nat (length bs) :: size_t) = length bs"
    by (rule unat_word_of_nat64)
  then have whole: "fst (snd (Read source_ops (word_of_nat (length bs)) [] ?s)) = bs"
    by (simp add: source_Read_ok new_source_def)
  show ?thesis
    unfolding same whole using oks stream by simp
qed

text \<open>
  A file of twelve bytes with alignment \<open>4 = 2^2\<close> under a decorator of readahead size 8:
  reads of 2, 7, 1 and 5 bytes return what the same reads return on the file itself, the
  twelve bytes of the file in order.
\<close>

theorem cache_transparency_witness:
  "fst (run source_ops (map ReadReq [2, 7, 1, 5])
      (new_ReadaheadSequentialFile source_ops
         (new_source [1, 2, 3, 4, 5, 6, 7, 8, 9, 10, 11, 12] 4) 7))
     = [(OK, [1, 2]), (OK, [3, 4, 5, 6, 7, 8, 9]), (OK, [10]), (OK, [11, 12])]
   \<and> fst (read_all source_ops [2, 7, 1, 5]
         (new_source [1, 2, 3, 4, 5, 6, 7, 8, 9, 10, 11, 12] 4))
     = [(OK, [1, 2]), (OK, [3, 4, 5, 6, 7, 8, 9]), (OK, [10]), (OK, [11, 12])]
   \<and> concat (map snd (fst (run source_ops (map ReadReq [2, 7, 1, 5])
          (new_ReadaheadSequentialFile source_ops
             (new_source [1, 2, 3, 4, 5, 6, 7, 8, 9, 10, 11, 12] 4) 7))))
       = take (sum_list (map unat [2, 7, 1, 5 :: size_t]))
           [1, 2, 3, 4, 5, 6, 7, 8, 9, 10, 11, 12]"
proof -
  have h: "(4 :: size_t) = 2 ^ 2" "(2 :: nat) < 64"
      "length [1, 2, 3, 4, 5, 6, 7, 8, 9, 10, 11, 12 :: byte] + unat (4 :: size_t) < 2 ^ 64"
      "\<forall>n \<in> set [2, 7, 1, 5 :: size_t]. unat n + unat (4 :: size_t) < 2 ^ 64"
    by simp_all
  note t = cache_transparency [OF h, of 7]
  have r: "fst (read_all source_ops [2, 7, 1, 5]
         (new_source [1, 2, 3, 4, 5, 6, 7, 8, 9, 10, 11, 12] 4))
     = [(OK, [1, 2]), (OK, [3, 4, 5, 6, 7, 8, 9]), (OK, [10]), (OK, [11, 12])]"
    by (simp add: source_simps Let_def)
  have d: "fst (run source_ops (map ReadReq [2, 7, 1, 5])
      (new_ReadaheadSequentialFile source_ops
         (new_source [1, 2, 3, 4, 5, 6, 7, 8, 9, 10, 11, 12] 4) 7))
     = [(OK, [1, 2]), (OK, [3, 4, 5, 6, 7, 8, 9]), (OK, [10]), (OK, [11, 12])]"
    unfolding conjunct1 [OF t] by (rule r)
  show ?thesis
    by (rule conjI [OF d conjI [OF r conjunct1 [OF conjunct2 [OF conjunct2 [OF t]]]]])
qed

text \<open>
  The claim as stated fails for a size \<open>n\<close> whose sum with the alignment wraps. Over the
  same file, the first read of the decorator with \<open>n = 2^64 - 1\<close> computes
  \<open>n + alignment = 3\<close>, takes the refill path and returns the eight bytes of one fill.
  The same read of the file itself returns the twelve bytes of the file, and so does one
  large read.
\<close>

theorem cache_short_read_counterexample:
  "fst (run source_ops (map ReadReq [18446744073709551615])
      (new_ReadaheadSequentialFile source_ops
         (new_source [1, 2, 3, 4, 5, 6, 7, 8, 9, 10, 11, 12] 4) 7))
     = [(OK, [1, 2, 3, 4, 5, 6, 7, 8])]
   \<and> fst (read_all source_ops [18446744073709551615]
         (new_source [1, 2, 3, 4, 5, 6, 7, 8, 9, 10, 11, 12] 4))
     = [(OK, [1, 2, 3, 4, 5, 6, 7, 8, 9, 10, 11, 12])]
   \<and> fst (snd (Read source_ops 18446744073709551615 []
         (new_source [1, 2, 3, 4, 5, 6, 7, 8, 9, 10, 11, 12] 4)))
     = [1, 2, 3, 4, 5, 6, 7, 8, 9, 10, 11, 12]
   \<and> concat (map snd (fst (run source_ops (map ReadReq [18446744073709551615])
         (new_ReadaheadSequentialFile source_ops
            (new_source [1, 2, 3, 4, 5, 6, 7, 8, 9, 10, 11, 12] 4) 7))))
     \<noteq> fst (snd (Read source_ops 18446744073709551615 []
         (new_source [1, 2, 3, 4, 5, 6, 7, 8, 9, 10, 11, 12] 4)))"
  by (simp add: new_ReadaheadSequentialFile_def decorator_simps source_simps buffer_simps
      Roundup_def)

subsection \<open>Skipping and reading\<close>

text \<open>
  Claim C6. Let the decorator be in step with its file, and let \<open>k + n\<close> not exceed the
  bytes of the file from the cursor on. Then \<open>Skip(k)\<close> followed by \<open>Read(n)\<close> returns OK twice and the same \<open>n\<close> bytes as
  \<open>Read(k + n)\<close> from the same state with its first \<open>k\<close> bytes dropped.
\<close>

theorem skip_then_read_consistent:
  assumes "in_step st"
    and "unat k + unat n \<le> length (contents (ra_file st)) - unat (read_offset st)"
  shows "fst (ReadaheadSequentialFile_Skip source_ops k st) = OK
     \<and> fst (ReadaheadSequentialFile_Read source_ops n result1
            (snd (ReadaheadSequentialFile_Skip source_ops k st))) = OK
     \<and> fst (ReadaheadSequentialFile_Read source_ops (k + n) result2 st) = OK
     \<and> fst (snd (ReadaheadSequentialFile_Read source_ops n result1
            (snd (ReadaheadSequentialFile_Skip source_ops k st))))
        = drop (unat k) (fst (snd (ReadaheadSequentialFile_Read source_ops (k + n) result2 st)))
     \<and> length (fst (snd (ReadaheadSequentialFile_Read source_ops n result1
            (snd (ReadaheadSequentialFile_Skip source_ops k st))))) = unat n"
proof -
  define ro where "ro = unat (read_offset st)"
  define bs where "bs = contents (ra_file st)"
  let ?st1 = "snd (ReadaheadSequentialFile_Skip source_ops k st)"
  have avail: "ro + (unat k + unat n) \<le> length bs"
    using assms(2) in_step_cursor [OF assms(1)] unfolding ro_def bs_def by linarith
  then have within: "unat (read_offset st) + unat k \<le> length (contents (ra_file st))"
    unfolding ro_def bs_def by linarith
  have "length bs + unat (alignment st) < 2 ^ 64"
    using assms(1) unfolding bs_def by (simp add: in_step_def)
  with avail have fits: "unat k + unat n + unat (alignment st) < 2 ^ 64"
    by linarith
  note sk = Skip_in_step [OF assms(1) within]
  have ro1: "unat (read_offset ?st1) = ro + unat k"
    and bs1: "contents (ra_file ?st1) = bs"
    and al1: "alignment ?st1 = alignment st"
    and inv1: "in_step ?st1"
    using sk unfolding ro_def bs_def by simp_all
  have fits1: "unat n + unat (alignment ?st1) < 2 ^ 64"
    unfolding al1 using fits by linarith
  from Read_in_step [OF inv1, of n result1] fits1
  have d1: "delivers (min (unat n) (length bs - (ro + unat k))) ?st1
      (ReadaheadSequentialFile_Read source_ops n result1 ?st1)"
    unfolding ro1 bs1 by blast
  have m1: "min (unat n) (length bs - (ro + unat k)) = unat n"
    using avail by linarith
  have "unat k + unat n < 18446744073709551616"
    using fits by simp
  then have kn: "unat (k + n) = unat k + unat n"
    by (rule unat_add64_fits)
  have fits2: "unat (k + n) + unat (alignment st) < 2 ^ 64"
    unfolding kn using fits .
  from Read_in_step [OF assms(1), of "k + n" result2] fits2
  have d2: "delivers (min (unat (k + n)) (length bs - ro)) st
      (ReadaheadSequentialFile_Read source_ops (k + n) result2 st)"
    unfolding ro_def bs_def by blast
  have m2: "min (unat (k + n)) (length bs - ro) = unat k + unat n"
    unfolding kn using avail by linarith
  from d1 [unfolded m1] have b1:
      "fst (snd (ReadaheadSequentialFile_Read source_ops n result1 ?st1))
        = take (unat n) (drop (ro + unat k) bs)"
    and s1: "fst (ReadaheadSequentialFile_Read source_ops n result1 ?st1) = OK"
    by (simp_all add: delivers_def ro1 bs1)
  from d2 [unfolded m2] have b2:
      "fst (snd (ReadaheadSequentialFile_Read source_ops (k + n) result2 st))
        = take (unat k + unat n) (drop ro bs)"
    and s2: "fst (ReadaheadSequentialFile_Read source_ops (k + n) result2 st) = OK"
    by (simp_all add: delivers_def ro_def bs_def)
  have "drop (unat k) (take (unat k + unat n) (drop ro bs))
      = take (unat n) (drop (ro + unat k) bs)"
    by (simp add: drop_take add.commute)
  moreover have "length (take (unat n) (drop (ro + unat k) bs)) = unat n"
    using avail by simp
  ultimately show ?thesis
    unfolding b1 b2 using sk s1 s2 by simp
qed

text \<open>
  A file of twelve bytes with alignment 4 under a decorator of readahead size 8, after
  \<open>Read(2)\<close>: \<open>Skip(3)\<close> and \<open>Read(6)\<close> return the bytes \<open>[5,11)\<close>, which are the bytes
  \<open>[2,11)\<close> that \<open>Read(9)\<close> returns without their first three.
\<close>

theorem skip_then_read_consistent_witness:
  "fst (snd (ReadaheadSequentialFile_Read source_ops 6 []
      (snd (ReadaheadSequentialFile_Skip source_ops 3
        (snd (run source_ops [ReadReq 2]
          (new_ReadaheadSequentialFile source_ops
             (new_source [1, 2, 3, 4, 5, 6, 7, 8, 9, 10, 11, 12] 4) 7)))))))
     = drop (unat (3 :: uint64_t)) (fst (snd (ReadaheadSequentialFile_Read source_ops (3 + 6) []
        (snd (run source_ops [ReadReq 2]
          (new_ReadaheadSequentialFile source_ops
             (new_source [1, 2, 3, 4, 5, 6, 7, 8, 9, 10, 11, 12] 4) 7))))))
   \<and> fst (snd (ReadaheadSequentialFile_Read source_ops (3 + 6) []
        (snd (run source_ops [ReadReq 2]
          (new_ReadaheadSequentialFile source_ops
             (new_source [1, 2, 3, 4, 5, 6, 7, 8, 9, 10, 11, 12] 4) 7)))))
     = [3, 4, 5, 6, 7, 8, 9, 10, 11]"
proof -
  let ?d = "\<lparr>ra_file = \<lparr>contents = [1, 2, 3, 4, 5, 6, 7, 8, 9, 10, 11, 12], pos = 8,
           required_alignment = 4, direct_io = False, faults = [],
           calls = [ReadCall 8 0]\<rparr>,
        alignment = 4, readahead_size = 8,
        buffer = \<lparr>buf_alignment = 4, capacity = 8, cursize = 8,
           bufstart = [1, 2, 3, 4, 5, 6, 7, 8]\<rparr>,
        buffer_offset = 0, read_offset = 2\<rparr>"
  have reach: "snd (run source_ops [ReadReq 2]
          (new_ReadaheadSequentialFile source_ops
             (new_source [1, 2, 3, 4, 5, 6, 7, 8, 9, 10, 11, 12] 4) 7)) = ?d"
    by (simp add: new_ReadaheadSequentialFile_def decorator_simps source_simps buffer_simps
        Roundup_def)
  have h: "in_step ?d"
      "unat (3 :: uint64_t) + unat (6 :: size_t)
         \<le> length (contents (ra_file ?d)) - unat (read_offset ?d)"
    by (simp_all add: in_step_def)
  note w = skip_then_read_consistent [OF h, of "[]" "[]"]
  have whole: "fst (snd (ReadaheadSequentialFile_Read source_ops (3 + 6) [] ?d))
      = [3, 4, 5, 6, 7, 8, 9, 10, 11]"
    by (simp add: decorator_simps source_simps buffer_simps)
  show ?thesis
    unfolding reach
    by (rule conjI [OF conjunct1 [OF conjunct2 [OF conjunct2 [OF conjunct2 [OF w]]]] whole])
qed

end
